theory Spec2Isabelle
  imports Complex_Main "HOL-Library.Word" "HOL-Library.Log_Nat"
begin

section \<open>piclab.cpp: a shallow embedding\<close>

text \<open>
  The program is a single Win32 source file. Its own functions are embedded below, one
  definition per source function, in source order. What the platform does (the C runtime, GDI+, the
  file system, the clock, the user at the dialogs) is not code of the program: it enters the
  model as explicit parameters, each documented where it is introduced.
\<close>

subsection \<open>Wide strings\<close>

text \<open>
  \<^verbatim>\<open>std::wstring\<close> on Windows is a sequence of 16-bit code units. \<open>L s\<close> is the wide literal
  \<^verbatim>\<open>L"s"\<close> for ASCII text. \<open>c_str\<close> is what a callee sees through \<^verbatim>\<open>.c_str()\<close>: the units up
  to the first NUL.
\<close>

type_synonym wchar = "16 word"
type_synonym wstring = "wchar list"

definition L :: "string \<Rightarrow> wstring" where
  "L s = map of_char s"

definition c_str :: "wstring \<Rightarrow> wstring" where
  "c_str s = takeWhile (\<lambda>c. c \<noteq> 0) s"

definition backslash :: wchar where
  "backslash = 0x5C"

definition slash :: wchar where
  "slash = 0x2F"

definition dot :: wchar where
  "dot = 0x2E"

definition colon :: wchar where
  "colon = 0x3A"

text \<open>
  Decimal text of an unsigned number, as \<^verbatim>\<open>std::to_wstring\<close> and the \<^verbatim>\<open>%u\<close> conversion of
  \<^verbatim>\<open>swprintf_s\<close> produce it.
\<close>

definition digit :: "nat \<Rightarrow> wchar" where
  "digit d = of_nat (48 + d)"

function to_wstring :: "nat \<Rightarrow> wstring" where
  "to_wstring n = (if n < 10 then [digit n] else to_wstring (n div 10) @ [digit (n mod 10)])"
  by pat_completeness auto
termination
  by (relation "measure id") auto

declare to_wstring.simps [simp del]

subsection \<open>Trim (lines 31-36)\<close>

text \<open>
  The two index loops of \<^verbatim>\<open>Trim\<close>. \<^verbatim>\<open>iswspace\<close> is the C runtime's classification of a code
  unit and is a parameter.
\<close>

function Trim_a :: "(wchar \<Rightarrow> bool) \<Rightarrow> wstring \<Rightarrow> nat \<Rightarrow> nat \<Rightarrow> nat" where
  "Trim_a iswspace s a b = (if a < b \<and> iswspace (s ! a) then Trim_a iswspace s (a + 1) b else a)"
  by pat_completeness auto
termination
  by (relation "measure (\<lambda>(iswspace, s, a, b). b - a)") auto

declare Trim_a.simps [simp del]

function Trim_b :: "(wchar \<Rightarrow> bool) \<Rightarrow> wstring \<Rightarrow> nat \<Rightarrow> nat \<Rightarrow> nat" where
  "Trim_b iswspace s a b = (if b > a \<and> iswspace (s ! (b - 1)) then Trim_b iswspace s a (b - 1) else b)"
  by pat_completeness auto
termination
  by (relation "measure (\<lambda>(iswspace, s, a, b). b)") auto

declare Trim_b.simps [simp del]

definition Trim :: "(wchar \<Rightarrow> bool) \<Rightarrow> wstring \<Rightarrow> wstring" where
  "Trim iswspace s =
     (let a = Trim_a iswspace s 0 (length s);
          b = Trim_b iswspace s a (length s)
      in take (b - a) (drop a s))"

subsection \<open>GetEncoderClsid (lines 51-65)\<close>

text \<open>
  GDI+ status codes are small non-negative integers with \<^verbatim>\<open>Ok = 0\<close>; a \<^verbatim>\<open>CLSID\<close> is a 128-bit
  identifier. Of \<^verbatim>\<open>ImageCodecInfo\<close> the function reads two fields.

  The encoder registry is the platform's answer to the two enumeration calls:
  \<open>enc_size\<close> is the byte size stored by \<^verbatim>\<open>GetImageEncodersSize\<close> (it stays at its initial 0
  when that call fails), \<open>enc_status\<close> is the status of \<^verbatim>\<open>GetImageEncoders\<close>, and \<open>enc_array\<close>
  is the array that call fills in, whose length is \<^verbatim>\<open>num\<close>.
\<close>

type_synonym Status = nat
type_synonym CLSID = "128 word"

definition Ok :: Status where
  "Ok = 0"

record ImageCodecInfo =
  Clsid :: CLSID
  MimeType :: wstring

record encoder_registry =
  enc_size :: "32 word"
  enc_status :: Status
  enc_array :: "ImageCodecInfo list"

text \<open>
  The \<^verbatim>\<open>for\<close> loop from index \<open>j\<close> on, over the rest of the array; \<^verbatim>\<open>wcscmp(..) == 0\<close> is equality
  of the two NUL-terminated strings, and \<^verbatim>\<open>(int)j\<close> reads the 32-bit index as signed.
\<close>

fun GetEncoderClsid_loop :: "ImageCodecInfo list \<Rightarrow> nat \<Rightarrow> wstring \<Rightarrow> CLSID \<Rightarrow> int \<times> CLSID" where
  "GetEncoderClsid_loop [] j format pClsid = (-1, pClsid)"
| "GetEncoderClsid_loop (e # es) j format pClsid =
     (if c_str (MimeType e) = c_str format
      then (sint (word_of_nat j :: 32 word), Clsid e)
      else GetEncoderClsid_loop es (j + 1) format pClsid)"

definition GetEncoderClsid :: "encoder_registry \<Rightarrow> wstring \<Rightarrow> CLSID \<Rightarrow> int \<times> CLSID" where
  "GetEncoderClsid reg format pClsid =
     (if enc_size reg = 0 then (-1, pClsid)
      else if enc_status reg \<noteq> Ok then (-1, pClsid)
      else GetEncoderClsid_loop (enc_array reg) 0 format pClsid)"

subsection \<open>PathWithSuffixBeforeExt (lines 67-77)\<close>

text \<open>
  \<^verbatim>\<open>find_last_of\<close> gives the greatest index holding one of the given units, \<open>None\<close> for
  \<^verbatim>\<open>npos\<close>; \<^verbatim>\<open>insert(pos, t)\<close> is called with \<open>pos\<close> inside the string.
\<close>

fun find_last_of :: "wstring \<Rightarrow> wchar list \<Rightarrow> nat option" where
  "find_last_of [] cs = None"
| "find_last_of (x # xs) cs =
     (case find_last_of xs cs of
        Some i \<Rightarrow> Some (Suc i)
      | None \<Rightarrow> if x \<in> set cs then Some 0 else None)"

definition insert_at :: "wstring \<Rightarrow> nat \<Rightarrow> wstring \<Rightarrow> wstring" where
  "insert_at s pos t = take pos s @ t @ drop pos s"

definition PathWithSuffixBeforeExt :: "wstring \<Rightarrow> wstring \<Rightarrow> wstring" where
  "PathWithSuffixBeforeExt path suffix =
     (case find_last_of path [dot] of
        None \<Rightarrow> path @ suffix
      | Some d \<Rightarrow>
          (case find_last_of path [backslash, slash] of
             None \<Rightarrow> insert_at path d suffix
           | Some sl \<Rightarrow> if d < sl then path @ suffix else insert_at path d suffix))"

text \<open>
  The specification's vocabulary for the same operation: the part of a path after its last
  separator, and whether that part contains a dot (the path "has an extension").
\<close>

definition after_last_separator :: "wstring \<Rightarrow> wstring" where
  "after_last_separator p = rev (takeWhile (\<lambda>c. c \<noteq> slash \<and> c \<noteq> backslash) (rev p))"

definition has_extension :: "wstring \<Rightarrow> bool" where
  "has_extension p \<longleftrightarrow> dot \<in> set (after_last_separator p)"

subsection \<open>GetTempSiblingPath (lines 79-87)\<close>

text \<open>
  The C runtime calls, after their documentation. \<^verbatim>\<open>_wsplitpath_s\<close> cuts a path into an
  optional drive (one unit and a colon), the directory up to and including the last
  separator, the base name up to the last dot, and the extension from that dot on; when a
  part does not fit its buffer, all four buffers are cleared (the call returns \<^verbatim>\<open>ERANGE\<close>,
  which the program ignores). \<^verbatim>\<open>_wmakepath_s\<close> and \<^verbatim>\<open>swprintf_s\<close> invoke the invalid-parameter
  handler when the result does not fit the buffer, which ends the process: \<open>None\<close>.
\<close>

definition MAX_DRIVE :: nat where "MAX_DRIVE = 3"
definition MAX_DIR :: nat where "MAX_DIR = 256"
definition MAX_FNAME :: nat where "MAX_FNAME = 256"
definition MAX_EXT :: nat where "MAX_EXT = 256"
definition MAX_PATH :: nat where "MAX_PATH = 260"

definition split_drive :: "wstring \<Rightarrow> wstring \<times> wstring" where
  "split_drive p = (if 2 \<le> length p \<and> p ! 1 = colon then (take 2 p, drop 2 p) else ([], p))"

definition split_dir :: "wstring \<Rightarrow> wstring \<times> wstring" where
  "split_dir p =
     (case find_last_of p [slash, backslash] of
        None \<Rightarrow> ([], p)
      | Some i \<Rightarrow> (take (Suc i) p, drop (Suc i) p))"

definition split_ext :: "wstring \<Rightarrow> wstring \<times> wstring" where
  "split_ext p =
     (case find_last_of p [dot] of
        None \<Rightarrow> (p, [])
      | Some d \<Rightarrow> (take d p, drop d p))"

definition split_parts :: "wstring \<Rightarrow> wstring \<times> wstring \<times> wstring \<times> wstring" where
  "split_parts path =
     (let (drive, rest) = split_drive path;
          (dir, file) = split_dir rest;
          (fname, ext) = split_ext file
      in (drive, dir, fname, ext))"

definition parts_fit :: "wstring \<times> wstring \<times> wstring \<times> wstring \<Rightarrow> bool" where
  "parts_fit parts =
     (case parts of (drive, dir, fname, ext) \<Rightarrow>
        length drive < MAX_DRIVE \<and> length dir < MAX_DIR
        \<and> length fname < MAX_FNAME \<and> length ext < MAX_EXT)"

definition wsplitpath_s :: "wstring \<Rightarrow> wstring \<times> wstring \<times> wstring \<times> wstring" where
  "wsplitpath_s path =
     (let parts = split_parts path
      in if parts_fit parts then parts else ([], [], [], []))"

definition wmakepath_s :: "wstring \<Rightarrow> wstring \<Rightarrow> wstring \<Rightarrow> wstring \<Rightarrow> wstring option" where
  "wmakepath_s drive dir fname ext =
     (let p = (if drive = [] then [] else [hd drive, colon])
            @ (if dir = [] then []
               else if last dir = slash \<or> last dir = backslash then dir else dir @ [backslash])
            @ fname
            @ (if ext = [] then [] else if hd ext = dot then ext else dot # ext)
      in if length p < MAX_PATH then Some p else None)"

definition swprintf_s :: "wstring \<Rightarrow> wstring option" where
  "swprintf_s out = (if length out < MAX_PATH then Some out else None)"

definition GetTempSiblingPath :: "wstring \<Rightarrow> 32 word \<Rightarrow> wstring option" where
  "GetTempSiblingPath original tick =
     (let (drive, dir, fname, ext) = wsplitpath_s (c_str original)
      in case wmakepath_s drive dir [] [] of
           None \<Rightarrow> None
         | Some folder \<Rightarrow>
             swprintf_s (folder @ fname @ L ''_label_tmp_'' @ to_wstring (unat tick) @ L ''.png''))"

text \<open>The text that the format string of line 85 produces after a given folder and base name.\<close>

definition tmp_name :: "wstring \<Rightarrow> 32 word \<Rightarrow> wstring" where
  "tmp_name base tick = base @ L ''_label_tmp_'' @ to_wstring (unat tick) @ L ''.png''"

text \<open>
  \<^verbatim>\<open>GetTickCount\<close> is the number of milliseconds since the system started, as a 32-bit
  value. Two calls of \<^verbatim>\<open>GetTempSiblingPath\<close> on one path, the second \<open>elapsed\<close> milliseconds
  after the first:
\<close>

definition GetTickCount :: "nat \<Rightarrow> 32 word" where
  "GetTickCount uptime_ms = word_of_nat uptime_ms"


subsection \<open>Label geometry (ProcessAndSave, lines 232-262)\<close>

text \<open>
  The geometry mixes \<^verbatim>\<open>REAL\<close> (IEEE 754 binary32), \<^verbatim>\<open>double\<close> (binary64) and \<^verbatim>\<open>UINT\<close>. Values
  are real numbers, and every rounding the source performs is an explicit call: \<open>to_REAL\<close>
  where a value is stored in or computed as a \<^verbatim>\<open>REAL\<close>, \<open>to_double\<close> where a \<^verbatim>\<open>double\<close> literal is
  read or a \<^verbatim>\<open>double\<close> product is formed. Widening a \<^verbatim>\<open>REAL\<close> or a \<^verbatim>\<open>UINT\<close> to \<^verbatim>\<open>double\<close>, and
  \<^verbatim>\<open>std::max<double>\<close>/\<^verbatim>\<open>std::min<double>\<close>, do not round.

  The program's arithmetic is \<open>ieee\<close>: rounding to the nearest number with a 24-bit
  (\<^verbatim>\<open>REAL\<close>) or 53-bit (\<^verbatim>\<open>double\<close>) significand, ties to the even significand. \<open>exponent x\<close> is
  the \<open>e\<close> with \<open>2^e \<le> x < 2^(e+1)\<close>. The exponent range is not limited: overflow and
  subnormal numbers are not modelled; the values computed from a 32-bit height and an
  ordinary measured height reach neither.
\<close>

record arith =
  to_REAL :: "real \<Rightarrow> real"
  to_double :: "real \<Rightarrow> real"

definition pow2 :: "int \<Rightarrow> real" where
  "pow2 e = power_int 2 e"

definition exponent :: "real \<Rightarrow> int" where
  "exponent x = (if 1 \<le> x then bitlen \<lfloor>x\<rfloor> - 1 else - bitlen (\<lceil>1 / x\<rceil> - 1))"

definition round_half_even :: "real \<Rightarrow> int" where
  "round_half_even r =
     (let f = \<lfloor>r\<rfloor>; d = r - of_int f
      in if d < 1 / 2 then f else if 1 / 2 < d then f + 1 else if even f then f else f + 1)"

definition round_to :: "nat \<Rightarrow> real \<Rightarrow> real" where
  "round_to p x =
     (if x = 0 then 0
      else let a = \<bar>x\<bar>; u = pow2 (exponent a - int p + 1)
           in sgn x * (of_int (round_half_even (a / u)) * u))"

definition ieee :: arith where
  "ieee = \<lparr>to_REAL = round_to 24, to_double = round_to 53\<rparr>"

definition UINT_to_double :: "32 word \<Rightarrow> real" where
  "UINT_to_double n = real (unat n)"

record RectF =
  X :: real
  Y :: real
  Width :: real
  Height :: real

definition pad :: "arith \<Rightarrow> 32 word \<Rightarrow> real" where
  "pad ar h = to_REAL ar (max 8 (to_double ar (UINT_to_double h * to_double ar 0.012)))"

definition fontPt :: "arith \<Rightarrow> 32 word \<Rightarrow> real" where
  "fontPt ar h = to_REAL ar (max 10 (to_double ar (UINT_to_double h * to_double ar 0.042)))"

definition layoutRect :: "arith \<Rightarrow> 32 word \<Rightarrow> 32 word \<Rightarrow> RectF" where
  "layoutRect ar w h =
     \<lparr>X = 0, Y = 0,
      Width = to_REAL ar (to_REAL ar (UINT_to_double w) - to_REAL ar (2 * pad ar h)),
      Height = 1000\<rparr>"

text \<open>The lower and the upper bound of lines 252 and 253, as the source computes them.\<close>

definition scrim_lower :: "arith \<Rightarrow> 32 word \<Rightarrow> real" where
  "scrim_lower ar h = max (to_double ar (UINT_to_double h * to_double ar 0.05)) 18"

definition scrim_upper :: "arith \<Rightarrow> 32 word \<Rightarrow> real" where
  "scrim_upper ar h = to_double ar (UINT_to_double h * to_double ar 0.15)"

text \<open>\<open>bounds_Height\<close> is \<^verbatim>\<open>bounds.Height\<close>, the text height that \<^verbatim>\<open>MeasureString\<close> reports.\<close>

definition scrimH :: "arith \<Rightarrow> 32 word \<Rightarrow> real \<Rightarrow> real" where
  "scrimH ar h bounds_Height =
     (let s0 = to_REAL ar (bounds_Height + to_REAL ar (2 * pad ar h));
          s1 = to_REAL ar (max s0 (scrim_lower ar h))
      in to_REAL ar (min s1 (scrim_upper ar h)))"

definition scrimRect :: "arith \<Rightarrow> 32 word \<Rightarrow> 32 word \<Rightarrow> real \<Rightarrow> RectF" where
  "scrimRect ar w h bounds_Height =
     \<lparr>X = 0,
      Y = to_REAL ar (to_REAL ar (UINT_to_double h) - scrimH ar h bounds_Height),
      Width = to_REAL ar (UINT_to_double w),
      Height = scrimH ar h bounds_Height\<rparr>"

definition textRect :: "arith \<Rightarrow> 32 word \<Rightarrow> 32 word \<Rightarrow> real \<Rightarrow> RectF" where
  "textRect ar w h bounds_Height =
     \<lparr>X = pad ar h,
      Y = to_REAL ar (to_REAL ar (to_REAL ar (UINT_to_double h) - scrimH ar h bounds_Height) + pad ar h),
      Width = to_REAL ar (to_REAL ar (UINT_to_double w) - to_REAL ar (2 * pad ar h)),
      Height = to_REAL ar (scrimH ar h bounds_Height - to_REAL ar (2 * pad ar h))\<rparr>"

definition shadowRect :: "arith \<Rightarrow> 32 word \<Rightarrow> 32 word \<Rightarrow> real \<Rightarrow> RectF" where
  "shadowRect ar w h bounds_Height =
     (let r = textRect ar w h bounds_Height
      in r\<lparr>X := to_REAL ar (X r + 1), Y := to_REAL ar (Y r + 1)\<rparr>)"

subsection \<open>Text format and drawing calls (lines 235-264)\<close>

text \<open>
  The GDI+ objects the program builds are plain data; the calls it makes on the
  \<^verbatim>\<open>Graphics\<close> object are recorded as a list of commands, in order. What GDI+ paints for a
  command is not part of the program.
\<close>

datatype StringAlignment = StringAlignmentNear | StringAlignmentCenter | StringAlignmentFar

datatype StringTrimming =
  StringTrimmingNone | StringTrimmingCharacter | StringTrimmingWord
  | StringTrimmingEllipsisCharacter | StringTrimmingEllipsisWord | StringTrimmingEllipsisPath

datatype StringFormatFlag =
  StringFormatFlagsDirectionRightToLeft | StringFormatFlagsDirectionVertical
  | StringFormatFlagsNoFitBlackBox | StringFormatFlagsDisplayFormatControl
  | StringFormatFlagsNoFontFallback | StringFormatFlagsMeasureTrailingSpaces
  | StringFormatFlagsNoWrap | StringFormatFlagsLineLimit | StringFormatFlagsNoClip

record StringFormat =
  formatFlags :: "StringFormatFlag list"
  alignment :: StringAlignment
  lineAlignment :: StringAlignment
  trimming :: StringTrimming

definition sf :: StringFormat where
  "sf = \<lparr>formatFlags = [StringFormatFlagsNoClip],
          alignment = StringAlignmentNear,
          lineAlignment = StringAlignmentCenter,
          trimming = StringTrimmingEllipsisCharacter\<rparr>"

datatype FontStyle = FontStyleRegular | FontStyleBold

datatype Unit = UnitPixel | UnitPoint

record Font =
  familyName :: wstring
  emSize :: real
  style :: FontStyle
  unit :: Unit

definition font :: "arith \<Rightarrow> bool \<Rightarrow> 32 word \<Rightarrow> Font" where
  "font ar segoe_available h =
     \<lparr>familyName = (if \<not> segoe_available then L ''Arial'' else L ''Segoe UI''),
      emSize = fontPt ar h, style = FontStyleBold, unit = UnitPoint\<rparr>"

text \<open>A colour is (alpha, red, green, blue).\<close>

type_synonym Color = "8 word \<times> 8 word \<times> 8 word \<times> 8 word"

datatype gfx_call =
  FillRectangle Color RectF
  | DrawString wstring int Font RectF StringFormat Color

definition draw_calls :: "arith \<Rightarrow> bool \<Rightarrow> 32 word \<Rightarrow> 32 word \<Rightarrow> wstring \<Rightarrow> real \<Rightarrow> gfx_call list" where
  "draw_calls ar segoe_available w h label bounds_Height =
     [FillRectangle (120, 0, 0, 0) (scrimRect ar w h bounds_Height),
      DrawString label (sint (word_of_nat (length label) :: 32 word)) (font ar segoe_available h)
        (shadowRect ar w h bounds_Height) sf (160, 0, 0, 0),
      DrawString label (sint (word_of_nat (length label) :: 32 word)) (font ar segoe_available h)
        (textRect ar w h bounds_Height) sf (255, 255, 255, 255)]"

subsection \<open>The platform\<close>

text \<open>
  A file system maps a path, as the callee reads it, to the bytes of the file there;
  distinct path strings name distinct files. A decoded bitmap has its two dimensions and
  its pixels.
\<close>

type_synonym bytes = "8 word list"
type_synonym filesystem = "wstring \<Rightarrow> bytes option"

record Bitmap =
  GetWidth :: "32 word"
  GetHeight :: "32 word"
  pixels :: "nat \<times> nat \<Rightarrow> 32 word"

text \<open>
  What the platform answers during one run of \<^verbatim>\<open>ProcessAndSave\<close>:
  \<^item> \<open>GdiplusStartup\<close>: the status of that call;
  \<^item> \<open>Bitmap_FromFile\<close>: the decoder; \<open>None\<close> stands for a null pointer or a last status other
    than \<^verbatim>\<open>Ok\<close>;
  \<^item> \<open>IsAvailable\<close>: whether the family "Segoe UI" is installed;
  \<^item> \<open>MeasureString\<close>: the bounding box GDI+ measures;
  \<^item> \<open>registry\<close>: the encoder enumeration;
  \<^item> \<open>uptime_ms\<close>: the clock read by \<^verbatim>\<open>GetTickCount\<close>;
  \<^item> \<open>Save_status\<close>: the status of \<^verbatim>\<open>Bitmap::Save\<close>; \<open>Save_bytes\<close>: what the encoder
    writes for a bitmap with the drawing calls applied; \<open>Save_torn\<close>: what a failed save
    leaves at its target, given what was there before (\<open>None\<close>: no file);
  \<^item> \<open>MoveFileExW_error\<close>: \<open>None\<close> when the move succeeds, else the \<^verbatim>\<open>GetLastError\<close> code;
  \<^item> \<open>DeleteFileW_ok\<close>: whether the deletion succeeds;
  \<^item> \<open>FormatMessageW\<close>: the system message of an error code.
\<close>

record platform =
  rounding :: arith
  GdiplusStartup :: Status
  Bitmap_FromFile :: "filesystem \<Rightarrow> wstring \<Rightarrow> Bitmap option"
  IsAvailable :: bool
  MeasureString :: "wstring \<Rightarrow> int \<Rightarrow> Font \<Rightarrow> RectF \<Rightarrow> StringFormat \<Rightarrow> RectF"
  registry :: encoder_registry
  uptime_ms :: nat
  Save_status :: Status
  Save_bytes :: "Bitmap \<Rightarrow> gfx_call list \<Rightarrow> bytes"
  Save_torn :: "bytes option \<Rightarrow> bytes option"
  MoveFileExW_error :: "32 word option"
  DeleteFileW_ok :: bool
  FormatMessageW :: "32 word \<Rightarrow> wstring"

text \<open>
  \<^verbatim>\<open>Bitmap::Save\<close> writes the encoded image to its target, or fails and leaves there what
  the platform says. \<^verbatim>\<open>MoveFileExW\<close> with \<^verbatim>\<open>MOVEFILE_REPLACE_EXISTING\<close> moves the file over its
  target, or fails with an error code and changes nothing (source and target are in one
  directory here). \<^verbatim>\<open>DeleteFileW\<close> removes the file when it succeeds.
\<close>

definition Save :: "platform \<Rightarrow> filesystem \<Rightarrow> Bitmap \<Rightarrow> gfx_call list \<Rightarrow> wstring \<Rightarrow> Status \<times> filesystem" where
  "Save pf fs bmp calls target =
     (if Save_status pf = Ok then (Ok, fs(target \<mapsto> Save_bytes pf bmp calls))
      else (Save_status pf, fs(target := Save_torn pf (fs target))))"

definition MoveFileExW :: "platform \<Rightarrow> filesystem \<Rightarrow> wstring \<Rightarrow> wstring \<Rightarrow> 32 word option \<times> filesystem" where
  "MoveFileExW pf fs existing new =
     (case MoveFileExW_error pf of
        Some e \<Rightarrow> (Some e, fs)
      | None \<Rightarrow>
          (case fs existing of
             None \<Rightarrow> (Some 2, fs)
           | Some b \<Rightarrow> (None, (fs(existing := None))(new \<mapsto> b))))"

definition DeleteFileW :: "platform \<Rightarrow> filesystem \<Rightarrow> wstring \<Rightarrow> filesystem" where
  "DeleteFileW pf fs target = (if DeleteFileW_ok pf then fs(target := None) else fs)"

definition LastErrorText :: "platform \<Rightarrow> 32 word \<Rightarrow> wstring" where
  "LastErrorText pf err = c_str (FormatMessageW pf err)"

subsection \<open>ProcessAndSave (lines 205-305)\<close>

text \<open>
  The function returns \<^verbatim>\<open>ok\<close> and leaves its two output strings as the caller passed them
  unless it assigns them; \<open>Aborted\<close> is the end of the process inside
  \<^verbatim>\<open>GetTempSiblingPath\<close>. The result carries the file system after the call.
\<close>

datatype outcome =
  Returned bool wstring wstring
  | Aborted

definition ProcessAndSave ::
  "platform \<Rightarrow> filesystem \<Rightarrow> wstring \<Rightarrow> wstring \<Rightarrow> bool \<Rightarrow> wstring \<Rightarrow> wstring \<Rightarrow> outcome \<times> filesystem" where
  "ProcessAndSave pf fs srcPath label overwrite outSavedPath outError =
     (if GdiplusStartup pf \<noteq> Ok then (Returned False outSavedPath (L ''GDI+ startup failed.''), fs)
      else case Bitmap_FromFile pf fs (c_str srcPath) of
        None \<Rightarrow> (Returned False outSavedPath (L ''Failed to load image. Is it a valid PNG?''), fs)
      | Some bmp \<Rightarrow>
          (let w = GetWidth bmp; h = GetHeight bmp;
               bounds = MeasureString pf label (sint (word_of_nat (length label) :: 32 word))
                          (font (rounding pf) (IsAvailable pf) h) (layoutRect (rounding pf) w h) sf;
               calls = draw_calls (rounding pf) (IsAvailable pf) w h label (Height bounds);
               (found, pngClsid) = GetEncoderClsid (registry pf) (L ''image/png'') 0
           in if found = -1 then (Returned False outSavedPath (L ''PNG encoder not found (GDI+).''), fs)
              else if overwrite then
                (case GetTempSiblingPath srcPath (GetTickCount (uptime_ms pf)) of
                   None \<Rightarrow> (Aborted, fs)
                 | Some tmp \<Rightarrow>
                     (let (s, fs1) = Save pf fs bmp calls (c_str tmp)
                      in if s \<noteq> Ok
                         then (Returned False outSavedPath
                                 (L ''Save to temp failed (status '' @ to_wstring s @ L '').''), fs1)
                         else (case MoveFileExW pf fs1 (c_str tmp) (c_str srcPath) of
                                 (None, fs2) \<Rightarrow> (Returned True srcPath outError, fs2)
                               | (Some e, fs2) \<Rightarrow>
                                   (Returned False outSavedPath
                                      (L ''Replace original failed. Win32 error '' @ to_wstring (unat e)
                                       @ L '': '' @ LastErrorText pf e),
                                    DeleteFileW pf fs2 (c_str tmp)))))
              else
                (let dst = PathWithSuffixBeforeExt srcPath (L ''_labeled'');
                     (s, fs1) = Save pf fs bmp calls (c_str dst)
                 in if s = Ok then (Returned True dst outError, fs1)
                    else (Returned False outSavedPath
                            (L ''Save copy failed (status '' @ to_wstring s @ L '').''), fs1))))"

text \<open>A run succeeded when the function returned \<^verbatim>\<open>true\<close>.\<close>

definition succeeded :: "outcome \<Rightarrow> bool" where
  "succeeded out = (case out of Returned ok savedPath err \<Rightarrow> ok | Aborted \<Rightarrow> False)"

subsection \<open>The label prompt (lines 95-201)\<close>

text \<open>
  What the operator does at the input window: the window cannot be created, or they press
  OK with some text in the edit field, or Cancel, or close the window.
  \<^verbatim>\<open>GetWindowTextW\<close> copies at most 1023 units of the text.
\<close>

datatype prompt_event =
  CreateWindowFailed
  | PressOK wstring
  | PressCancel
  | CloseWindow

definition GetWindowTextW :: "wstring \<Rightarrow> wstring" where
  "GetWindowTextW text = take 1023 (c_str text)"

definition PromptForText :: "(wchar \<Rightarrow> bool) \<Rightarrow> prompt_event \<Rightarrow> wstring \<Rightarrow> bool \<times> wstring" where
  "PromptForText iswspace ev out =
     (case ev of
        CreateWindowFailed \<Rightarrow> (False, out)
      | PressOK text \<Rightarrow>
          (let result = Trim iswspace (GetWindowTextW text);
               accepted = (result \<noteq> [])
           in if accepted then (True, result) else (False, out))
      | PressCancel \<Rightarrow> (False, out)
      | CloseWindow \<Rightarrow> (False, out))"

subsection \<open>wWinMain (lines 309-353)\<close>

text \<open>
  The run of the program: \<open>argv\<close> is the parsed command line, \<open>PathFileExistsW\<close> and
  \<open>iswspace\<close> are the platform's, \<open>ev\<close> is what happens at the label prompt and \<open>choice\<close> is
  the button of the overwrite/copy question. The result is the exit code, \<open>None\<close> when the
  process is ended inside \<^verbatim>\<open>ProcessAndSave\<close>, and the file system at the end.
\<close>

definition IDCANCEL :: int where "IDCANCEL = 2"
definition IDYES :: int where "IDYES = 6"
definition IDNO :: int where "IDNO = 7"

definition wWinMain ::
  "platform \<Rightarrow> (wstring \<Rightarrow> bool) \<Rightarrow> (wchar \<Rightarrow> bool) \<Rightarrow> wstring list \<Rightarrow> prompt_event \<Rightarrow> int
     \<Rightarrow> filesystem \<Rightarrow> int option \<times> filesystem" where
  "wWinMain pf PathFileExistsW iswspace argv ev choice fs =
     (if length argv < 2 then (Some 1, fs)
      else let path = c_str (argv ! 1)
      in if \<not> PathFileExistsW (c_str path) then (Some 2, fs)
         else case PromptForText iswspace ev [] of
           (False, label) \<Rightarrow> (Some 0, fs)
         | (True, label) \<Rightarrow>
             if choice = IDCANCEL then (Some 0, fs)
             else (let overwrite = (choice = IDYES)
                   in case ProcessAndSave pf fs path label overwrite [] [] of
                        (Aborted, fs') \<Rightarrow> (None, fs')
                      | (Returned ok savedPath err, fs') \<Rightarrow>
                          if \<not> ok then (Some 3, fs') else (Some 0, fs')))"

subsection \<open>A concrete platform\<close>

text \<open>
  One platform on which the definitions can be run: an 800 by 600 source
  image at \<^verbatim>\<open>C:/pics/a.png\<close>, two registered encoders, the clock at 5000 ms, a save that
  works, a move that fails with a sharing violation (error 32) and a deletion that works.
\<close>

definition png_registry :: encoder_registry where
  "png_registry =
     \<lparr>enc_size = 208, enc_status = Ok,
      enc_array = [\<lparr>Clsid = 1, MimeType = L ''image/bmp''\<rparr>,
                   \<lparr>Clsid = 2, MimeType = L ''image/png''\<rparr>]\<rparr>"

text \<open>A registry in which no encoder declares \<^verbatim>\<open>image/png\<close>.\<close>

definition bmp_registry :: encoder_registry where
  "bmp_registry =
     \<lparr>enc_size = 104, enc_status = Ok,
      enc_array = [\<lparr>Clsid = 1, MimeType = L ''image/bmp''\<rparr>]\<rparr>"

definition example_bitmap :: Bitmap where
  "example_bitmap = \<lparr>GetWidth = 800, GetHeight = 600, pixels = (\<lambda>xy. 0xFFFF0000)\<rparr>"

definition example_path :: wstring where
  "example_path = L ''C:/pics/a.png''"

definition example_fs :: filesystem where
  "example_fs = (\<lambda>p. if p = example_path then Some [137, 80, 78, 71] else None)"

definition example_platform :: platform where
  "example_platform =
     \<lparr>rounding = ieee,
      GdiplusStartup = Ok,
      Bitmap_FromFile = (\<lambda>fs p. case fs p of None \<Rightarrow> None | Some b \<Rightarrow> Some example_bitmap),
      IsAvailable = True,
      MeasureString = (\<lambda>text n f box fmt. \<lparr>X = 0, Y = 0, Width = 120, Height = 40\<rparr>),
      registry = png_registry,
      uptime_ms = 5000,
      Save_status = Ok,
      Save_bytes = (\<lambda>bmp calls. [137, 80, 78, 71, 1]),
      Save_torn = (\<lambda>before. Some []),
      MoveFileExW_error = Some 32,
      DeleteFileW_ok = True,
      FormatMessageW = (\<lambda>e. L ''The file is in use.'')\<rparr>"

text \<open>
  A second source image, in the same folder, whose base name has 237 units: a path of 249
  units, below the limit of \<^verbatim>\<open>MAX_PATH\<close>.
\<close>

definition long_path :: wstring where
  "long_path = L ''C:/pics/'' @ L (replicate 237 CHR ''a'') @ L ''.png''"

definition long_fs :: filesystem where
  "long_fs = (\<lambda>p. if p = long_path then Some [137, 80, 78, 71] else None)"

text \<open>\<^verbatim>\<open>PathFileExistsW\<close> on that file system.\<close>

definition long_exists :: "wstring \<Rightarrow> bool" where
  "long_exists p \<longleftrightarrow> long_fs p \<noteq> None"

definition example_iswspace :: "wchar \<Rightarrow> bool" where
  "example_iswspace c \<longleftrightarrow> c = 0x20 \<or> (0x09 \<le> c \<and> c \<le> 0x0D)"

section \<open>Path utilities\<close>

subsection \<open>Facts about \<open>find_last_of\<close> and extensions\<close>

lemma find_last_of_None_iff: "find_last_of s cs = None \<longleftrightarrow> set s \<inter> set cs = {}"
  by (induction s) (auto split: option.splits)

lemma find_last_of_append:
  "find_last_of (p @ q) cs =
     (case find_last_of q cs of
        Some i \<Rightarrow> Some (length p + i)
      | None \<Rightarrow> find_last_of p cs)"
  by (induction p) (auto split: option.splits)

lemma find_last_of_at:
  assumes "c \<in> set cs" and "set b \<inter> set cs = {}"
  shows "find_last_of (a @ c # b) cs = Some (length a)"
proof -
  have "find_last_of b cs = None" using assms(2) by (simp add: find_last_of_None_iff)
  then have "find_last_of (c # b) cs = Some 0" using assms(1) by simp
  then show ?thesis by (simp add: find_last_of_append)
qed

lemma find_last_of_SomeD:
  "find_last_of s cs = Some i \<Longrightarrow>
     i < length s \<and> s ! i \<in> set cs \<and> set (drop (Suc i) s) \<inter> set cs = {}"
proof (induction s arbitrary: i)
  case Nil
  then show ?case by simp
next
  case (Cons x xs)
  show ?case
  proof (cases "find_last_of xs cs")
    case None
    with Cons.prems have "x \<in> set cs" and "i = 0" by (auto split: if_splits)
    moreover have "set xs \<inter> set cs = {}" using None by (simp add: find_last_of_None_iff)
    ultimately show ?thesis by simp
  next
    case (Some k)
    with Cons.prems have "i = Suc k" by simp
    with Cons.IH [OF Some] show ?thesis by simp
  qed
qed

lemma find_last_of_split:
  assumes "find_last_of s cs = Some i"
  shows "s = take i s @ (s ! i) # drop (Suc i) s"
  using find_last_of_SomeD [OF assms] by (simp add: id_take_nth_drop)

lemma dot_not_sep: "dot \<noteq> slash" "dot \<noteq> backslash" "slash \<noteq> backslash"
  by (simp_all add: dot_def slash_def backslash_def)

lemma has_extension_iff:
  "has_extension p \<longleftrightarrow>
     (\<exists>a b. p = a @ dot # b \<and> dot \<notin> set b \<and> slash \<notin> set b \<and> backslash \<notin> set b)"
proof
  assume "has_extension p"
  then have "dot \<in> set (after_last_separator p)" by (simp add: has_extension_def)
  then obtain f1 f2 where f: "after_last_separator p = f1 @ dot # f2" and nd: "dot \<notin> set f2"
    by (meson split_list_last)
  let ?ok = "\<lambda>c. c \<noteq> slash \<and> c \<noteq> backslash"
  have "rev p = takeWhile ?ok (rev p) @ dropWhile ?ok (rev p)" by simp
  then have "p = rev (dropWhile ?ok (rev p)) @ after_last_separator p"
    unfolding after_last_separator_def by (metis rev_append rev_rev_ident)
  then have p: "p = (rev (dropWhile ?ok (rev p)) @ f1) @ dot # f2" using f by simp
  have "\<forall>c \<in> set (after_last_separator p). ?ok c"
    unfolding after_last_separator_def by (auto dest: set_takeWhileD)
  then have "slash \<notin> set f2" "backslash \<notin> set f2" using f by auto
  with p nd show "\<exists>a b. p = a @ dot # b \<and> dot \<notin> set b \<and> slash \<notin> set b \<and> backslash \<notin> set b"
    by blast
next
  assume "\<exists>a b. p = a @ dot # b \<and> dot \<notin> set b \<and> slash \<notin> set b \<and> backslash \<notin> set b"
  then obtain a b where p: "p = a @ dot # b" and b: "slash \<notin> set b" "backslash \<notin> set b"
    by blast
  have "takeWhile (\<lambda>c. c \<noteq> slash \<and> c \<noteq> backslash) (rev b @ dot # rev a)
          = rev b @ takeWhile (\<lambda>c. c \<noteq> slash \<and> c \<noteq> backslash) (dot # rev a)"
    using b by (intro takeWhile_append2) auto
  then show "has_extension p"
    using p dot_not_sep by (simp add: has_extension_def after_last_separator_def)
qed

lemma sbe_insert:
  assumes "dot \<notin> set b" "slash \<notin> set b" "backslash \<notin> set b"
  shows "PathWithSuffixBeforeExt (a @ dot # b) s = a @ s @ dot # b"
proof -
  have d: "find_last_of (a @ dot # b) [dot] = Some (length a)"
    using assms by (intro find_last_of_at) auto
  have nb: "find_last_of b [backslash, slash] = None"
    using assms by (simp add: find_last_of_None_iff)
  have "find_last_of (dot # b) [backslash, slash] = None"
    using nb dot_not_sep by simp
  then have sl: "find_last_of (a @ dot # b) [backslash, slash] = find_last_of a [backslash, slash]"
    by (simp add: find_last_of_append)
  have lt: "find_last_of a [backslash, slash] = Some k \<Longrightarrow> k < length a" for k
    using find_last_of_SomeD by blast
  show ?thesis
    unfolding PathWithSuffixBeforeExt_def d sl
    by (auto simp: insert_at_def split: option.splits dest: lt)
qed

lemma sbe_append:
  assumes "\<not> has_extension p"
  shows "PathWithSuffixBeforeExt p s = p @ s"
proof (cases "find_last_of p [dot]")
  case None
  then show ?thesis by (simp add: PathWithSuffixBeforeExt_def)
next
  case (Some d)
  note D = find_last_of_SomeD [OF Some]
  have pd: "p = take d p @ dot # drop (Suc d) p"
    using find_last_of_split [OF Some] D by simp
  have nodot: "dot \<notin> set (drop (Suc d) p)" using D by simp
  have sep: "slash \<in> set (drop (Suc d) p) \<or> backslash \<in> set (drop (Suc d) p)"
    using assms pd nodot unfolding has_extension_iff by blast
  then have "find_last_of (drop (Suc d) p) [backslash, slash] \<noteq> None"
    by (auto simp: find_last_of_None_iff)
  then obtain k where k: "find_last_of (drop (Suc d) p) [backslash, slash] = Some k" by blast
  have "find_last_of (take d p @ dot # drop (Suc d) p) [backslash, slash] = Some (length (take d p) + Suc k)"
    using k by (simp add: find_last_of_append [of "take d p" "dot # drop (Suc d) p"])
  then have "find_last_of p [backslash, slash] = Some (d + Suc k)"
    using pd D by (simp add: min_def)
  then show ?thesis using Some by (simp add: PathWithSuffixBeforeExt_def)
qed

lemma not_has_extension_append:
  assumes "\<not> has_extension p" and "\<not> has_extension s"
  shows "\<not> has_extension (p @ s)"
proof (cases "\<forall>c \<in> set s. c \<noteq> slash \<and> c \<noteq> backslash")
  case True
  then have "takeWhile (\<lambda>c. c \<noteq> slash \<and> c \<noteq> backslash) (rev s @ rev p)
               = rev s @ takeWhile (\<lambda>c. c \<noteq> slash \<and> c \<noteq> backslash) (rev p)"
    by (intro takeWhile_append2) auto
  moreover have tw: "takeWhile (\<lambda>c. c \<noteq> slash \<and> c \<noteq> backslash) (rev s) = rev s"
    using True by (simp add: takeWhile_eq_all_conv)
  have "dot \<notin> set s"
    using assms(2) unfolding has_extension_def after_last_separator_def tw by simp
  moreover have "dot \<notin> set (takeWhile (\<lambda>c. c \<noteq> slash \<and> c \<noteq> backslash) (rev p))"
    using assms(1) by (simp add: has_extension_def after_last_separator_def)
  ultimately show ?thesis
    by (simp add: has_extension_def after_last_separator_def)
next
  case False
  then have "\<exists>c \<in> set (rev s). \<not> (c \<noteq> slash \<and> c \<noteq> backslash)" by auto
  then have "takeWhile (\<lambda>c. c \<noteq> slash \<and> c \<noteq> backslash) (rev s @ rev p)
               = takeWhile (\<lambda>c. c \<noteq> slash \<and> c \<noteq> backslash) (rev s)"
    by (metis (mono_tags, lifting) takeWhile_append1)
  then show ?thesis
    using assms(2) by (simp add: has_extension_def after_last_separator_def)
qed

subsection \<open>Suffix before extension\<close>

text \<open>
  Claim C5. For every path and suffix, \<open>PathWithSuffixBeforeExt\<close> inserts the suffix
  immediately before the final dot of the path when that dot comes after the last
  separator (the rest \<open>b\<close> of the path holds neither a dot nor a separator), and otherwise
  returns the path followed by the suffix. In particular the suffix is appended when the
  path has no dot, and when only a separator-terminated prefix holds dots (a dot in a
  parent directory, or a path that ends in a separator: \<open>b = []\<close>); a name \<open>a.b.c\<close> becomes
  \<open>a.b<S>.c\<close>.
\<close>

theorem PathWithSuffixBeforeExt_spec:
  "(dot \<notin> set b \<and> slash \<notin> set b \<and> backslash \<notin> set b
      \<longrightarrow> PathWithSuffixBeforeExt (a @ dot # b) s = a @ s @ dot # b)
   \<and> (\<not> has_extension p \<longrightarrow> PathWithSuffixBeforeExt p s = p @ s)
   \<and> (dot \<notin> set p \<longrightarrow> PathWithSuffixBeforeExt p s = p @ s)
   \<and> ((sep = slash \<or> sep = backslash) \<and> dot \<notin> set b
      \<longrightarrow> PathWithSuffixBeforeExt (a @ sep # b) s = a @ sep # b @ s)"
proof (intro conjI impI)
  assume "dot \<notin> set b \<and> slash \<notin> set b \<and> backslash \<notin> set b"
  then show "PathWithSuffixBeforeExt (a @ dot # b) s = a @ s @ dot # b"
    by (simp add: sbe_insert)
next
  assume "\<not> has_extension p"
  then show "PathWithSuffixBeforeExt p s = p @ s" by (rule sbe_append)
next
  assume "dot \<notin> set p"
  then have "find_last_of p [dot] = None" by (simp add: find_last_of_None_iff)
  then show "PathWithSuffixBeforeExt p s = p @ s" by (simp add: PathWithSuffixBeforeExt_def)
next
  assume h: "(sep = slash \<or> sep = backslash) \<and> dot \<notin> set b"
  have "\<not> has_extension (a @ sep # b)"
  proof
    assume "has_extension (a @ sep # b)"
    then obtain a' b' where e: "a @ sep # b = a' @ dot # b'"
      and b': "dot \<notin> set b'" "slash \<notin> set b'" "backslash \<notin> set b'"
      unfolding has_extension_iff by blast
    from e h b' dot_not_sep show False
      by (auto simp: append_eq_append_conv2 append_eq_Cons_conv Cons_eq_append_conv)
  qed
  then show "PathWithSuffixBeforeExt (a @ sep # b) s = a @ sep # b @ s"
    by (simp add: sbe_append)
qed

theorem PathWithSuffixBeforeExt_spec_witness:
  "PathWithSuffixBeforeExt (L ''a.b.c'') (L ''_x'') = L ''a.b_x.c''
   \<and> PathWithSuffixBeforeExt (L ''/tmp/noext'') (L ''_labeled'') = L ''/tmp/noext_labeled''
   \<and> PathWithSuffixBeforeExt (L ''/tmp.d/'') (L ''_x'') = L ''/tmp.d/_x''"
proof -
  have h1: "dot \<notin> set (L ''c'') \<and> slash \<notin> set (L ''c'') \<and> backslash \<notin> set (L ''c'')"
    by (simp add: L_def dot_def slash_def backslash_def)
  have h2: "\<not> has_extension (L ''/tmp/noext'')"
    by (simp add: has_extension_def after_last_separator_def L_def dot_def slash_def backslash_def)
  have h3: "dot \<notin> set (L ''/tmp/noext'')"
    by (simp add: L_def dot_def)
  have h4: "(slash = slash \<or> slash = backslash) \<and> dot \<notin> set []"
    by simp
  have "PathWithSuffixBeforeExt (L ''a.b'' @ dot # L ''c'') (L ''_x'') = L ''a.b'' @ L ''_x'' @ dot # L ''c''"
    using PathWithSuffixBeforeExt_spec [of "L ''c''" "L ''a.b''" "L ''_x''"] h1 by blast
  moreover have "PathWithSuffixBeforeExt (L ''/tmp/noext'') (L ''_labeled'') = L ''/tmp/noext'' @ L ''_labeled''"
    using PathWithSuffixBeforeExt_spec [of _ _ "L ''_labeled''" "L ''/tmp/noext''"] h2 h3 by blast
  moreover have "PathWithSuffixBeforeExt (L ''/tmp.d'' @ slash # []) (L ''_x'') = L ''/tmp.d'' @ slash # [] @ L ''_x''"
    using PathWithSuffixBeforeExt_spec [of "[]" "L ''/tmp.d''" "L ''_x''" _ slash] h4 by blast
  ultimately show ?thesis
    by (simp add: L_def dot_def slash_def)
qed

text \<open>
  Claim C7 says that applying the operation twice, with \<open>s1\<close> and then \<open>s2\<close>, is the same
  as applying it once with \<open>s1\<close> followed by \<open>s2\<close>, for all paths and suffixes. That fails
  when the path has no extension and the first suffix brings one: the second suffix then
  lands inside the first.
\<close>

theorem suffix_twice_counterexample:
  "PathWithSuffixBeforeExt (PathWithSuffixBeforeExt (L ''noext'') (L ''.v1'')) (L ''_x'')
     = L ''noext_x.v1''
   \<and> PathWithSuffixBeforeExt (L ''noext'') (L ''.v1'' @ L ''_x'') = L ''noext.v1_x''
   \<and> L ''noext_x.v1'' \<noteq> L ''noext.v1_x''"
  by (simp add: PathWithSuffixBeforeExt_def insert_at_def L_def dot_def slash_def backslash_def)

text \<open>
  Claim C7, amended. When the path has an extension, or the first suffix has no dot
  after its last separator (so in particular when it has no dot at all), applying the
  operation with \<open>s1\<close> and then with \<open>s2\<close> gives the path with \<open>s1\<close> followed by \<open>s2\<close>
  inserted before its final extension, or appended when it has none.
\<close>

theorem suffix_twice:
  assumes "has_extension p \<or> \<not> has_extension s1"
  shows "PathWithSuffixBeforeExt (PathWithSuffixBeforeExt p s1) s2
           = PathWithSuffixBeforeExt p (s1 @ s2)"
proof (cases "has_extension p")
  case True
  then obtain a b where p: "p = a @ dot # b"
    and b: "dot \<notin> set b" "slash \<notin> set b" "backslash \<notin> set b"
    unfolding has_extension_iff by blast
  have "PathWithSuffixBeforeExt p s1 = (a @ s1) @ dot # b" using p b by (simp add: sbe_insert)
  then have "PathWithSuffixBeforeExt (PathWithSuffixBeforeExt p s1) s2 = (a @ s1) @ s2 @ dot # b"
    using sbe_insert [OF b, of "a @ s1" s2] by simp
  moreover have "PathWithSuffixBeforeExt p (s1 @ s2) = a @ (s1 @ s2) @ dot # b"
    using sbe_insert [OF b, of a "s1 @ s2"] p by simp
  ultimately show ?thesis by simp
next
  case False
  with assms have s1: "\<not> has_extension s1" by simp
  have "\<not> has_extension (p @ s1)" using False s1 by (rule not_has_extension_append)
  then show ?thesis using False by (simp add: sbe_append)
qed

theorem suffix_twice_witness:
  "PathWithSuffixBeforeExt (PathWithSuffixBeforeExt (L ''/tmp/a.png'') (L ''.v1'')) (L ''_x'')
     = PathWithSuffixBeforeExt (L ''/tmp/a.png'') (L ''.v1'' @ L ''_x'')
   \<and> PathWithSuffixBeforeExt (PathWithSuffixBeforeExt (L ''noext'') (L ''_a'')) (L ''_b'')
     = PathWithSuffixBeforeExt (L ''noext'') (L ''_a'' @ L ''_b'')"
proof -
  have h1: "has_extension (L ''/tmp/a.png'') \<or> \<not> has_extension (L ''.v1'')"
    by (simp add: has_extension_def after_last_separator_def L_def dot_def slash_def backslash_def)
  have h2: "has_extension (L ''noext'') \<or> \<not> has_extension (L ''_a'')"
    by (simp add: has_extension_def after_last_separator_def L_def dot_def slash_def backslash_def)
  show ?thesis
    using suffix_twice [OF h1, of "L ''_x''"] suffix_twice [OF h2, of "L ''_b''"] by blast
qed

section \<open>The temporary sibling path\<close>

subsection \<open>Decimal text\<close>

lemma unat_digit: "d < 10 \<Longrightarrow> unat (digit d) = 48 + d"
  unfolding digit_def by (subst unat_of_nat) simp


lemma digit_not_NUL: "d < 10 \<Longrightarrow> digit d \<noteq> 0"
  using unat_digit [of d] by (metis add_is_0 unat_0 zero_neq_numeral)



lemma to_wstring_no_NUL: "0 \<notin> set (to_wstring n)"
proof (induction n rule: to_wstring.induct)
  case (1 n)
  show ?case
  proof (cases "n < 10")
    case True
    then show ?thesis using digit_not_NUL [of n] by (subst to_wstring.simps) auto
  next
    case False
    then show ?thesis using "1.IH" digit_not_NUL [of "n mod 10"]
      by (subst to_wstring.simps) auto
  qed
qed

lemma length_to_wstring: "0 < k \<Longrightarrow> n < 10 ^ k \<Longrightarrow> length (to_wstring n) \<le> k"
proof (induction n arbitrary: k rule: to_wstring.induct)
  case (1 n)
  show ?case
  proof (cases "n < 10")
    case True
    then show ?thesis using "1.prems" by (subst to_wstring.simps) simp
  next
    case False
    obtain k' where k: "k = Suc k'" using "1.prems"(1) by (cases k) auto
    have "0 < k'" using False "1.prems"(2) k by (cases k') auto
    moreover have "n div 10 < 10 ^ k'" using "1.prems"(2) k by (simp add: less_mult_imp_div_less mult.commute)
    ultimately have "length (to_wstring (n div 10)) \<le> k'" using "1.IH" [OF False] by simp
    then show ?thesis using False k by (subst to_wstring.simps) simp
  qed
qed

lemma length_to_wstring_tick: "length (to_wstring (unat (t :: 32 word))) \<le> 10"
proof -
  have "unat t < 2 ^ 32" using unsigned_less [of t, where ?'a = nat] by simp
  then have "unat t < 10 ^ 10" by simp
  then show ?thesis by (intro length_to_wstring) simp_all
qed

lemma to_wstring_5000: "to_wstring 5000 = L ''5000''"
  by (simp add: to_wstring.simps [of 5000] to_wstring.simps [of 500] to_wstring.simps [of 50]
      to_wstring.simps [of 5] digit_def L_def)

lemma to_wstring_32: "to_wstring 32 = L ''32''"
  by (simp add: to_wstring.simps [of 32] to_wstring.simps [of 3] digit_def L_def)

subsection \<open>The parts of a path\<close>

lemma split_drive_facts:
  assumes "split_drive p = (drive, rest)"
  shows "drive @ rest = p" and "drive = [] \<or> [hd drive, colon] = drive" and "length drive \<le> 2"
proof -
  show "drive @ rest = p" using assms by (auto simp: split_drive_def split: if_splits)
  show "length drive \<le> 2" using assms by (auto simp: split_drive_def split: if_splits)
  show "drive = [] \<or> [hd drive, colon] = drive"
  proof (cases "2 \<le> length p \<and> p ! 1 = colon")
    case True
    then obtain x y zs where p: "p = x # y # zs" 
      by (cases p; cases "tl p") auto
    with True assms show ?thesis by (auto simp: split_drive_def)
  next
    case False
    with assms show ?thesis by (auto simp: split_drive_def)
  qed
qed

lemma split_dir_facts:
  assumes "split_dir p = (dir, fl)"
  shows "dir @ fl = p" and "dir = [] \<or> last dir = slash \<or> last dir = backslash"
proof -
  show "dir @ fl = p" using assms by (auto simp: split_dir_def split: option.splits)
  show "dir = [] \<or> last dir = slash \<or> last dir = backslash"
  proof (cases "find_last_of p [slash, backslash]")
    case None
    with assms show ?thesis by (simp add: split_dir_def)
  next
    case (Some i)
    from find_last_of_SomeD [OF Some] have i: "i < length p" "p ! i = slash \<or> p ! i = backslash"
      by auto
    have "dir = take (Suc i) p" using assms Some by (simp add: split_dir_def)
    then have "last dir = p ! i" using i(1) by (simp add: take_Suc_conv_app_nth)
    with i(2) show ?thesis by simp
  qed
qed

lemma split_ext_facts:
  assumes "split_ext p = (fname, ext)"
  shows "fname @ ext = p" and "ext = [] \<or> hd ext = dot"
proof -
  show "fname @ ext = p" using assms by (auto simp: split_ext_def split: option.splits)
  show "ext = [] \<or> hd ext = dot"
  proof (cases "find_last_of p [dot]")
    case None
    with assms show ?thesis by (simp add: split_ext_def)
  next
    case (Some d)
    from find_last_of_SomeD [OF Some] have d: "d < length p" "p ! d = dot" by auto
    have "ext = drop d p" using assms Some by (simp add: split_ext_def)
    then show ?thesis using d by (simp add: hd_drop_conv_nth)
  qed
qed

lemma split_parts_facts:
  assumes "split_parts p = (drive, dir, fname, ext)"
  shows "drive @ dir @ fname @ ext = p"
    and "drive = [] \<or> [hd drive, colon] = drive"
    and "length drive \<le> 2"
    and "dir = [] \<or> last dir = slash \<or> last dir = backslash"
    and "ext = [] \<or> hd ext = dot"
proof -
  obtain rest where a: "split_drive p = (drive, rest)"
    using assms by (auto simp: split_parts_def split: prod.splits)
  obtain fl where b: "split_dir rest = (dir, fl)"
    using assms a by (auto simp: split_parts_def split: prod.splits)
  have c: "split_ext fl = (fname, ext)"
    using assms a b by (auto simp: split_parts_def split: prod.splits)
  show "drive @ dir @ fname @ ext = p"
    using split_drive_facts(1) [OF a] split_dir_facts(1) [OF b] split_ext_facts(1) [OF c] by simp
  show "drive = [] \<or> [hd drive, colon] = drive" by (rule split_drive_facts(2) [OF a])
  show "length drive \<le> 2" by (rule split_drive_facts(3) [OF a])
  show "dir = [] \<or> last dir = slash \<or> last dir = backslash" by (rule split_dir_facts(2) [OF b])
  show "ext = [] \<or> hd ext = dot" by (rule split_ext_facts(2) [OF c])
qed

lemma wmakepath_s_folder:
  assumes "drive = [] \<or> [hd drive, colon] = drive"
    and "dir = [] \<or> last dir = slash \<or> last dir = backslash"
    and "length (drive @ dir) < MAX_PATH"
  shows "wmakepath_s drive dir [] [] = Some (drive @ dir)"
proof -
  have "(if drive = [] then [] else [hd drive, colon]) = drive" using assms(1) by auto
  moreover have "(if dir = [] then []
               else if last dir = slash \<or> last dir = backslash then dir else dir @ [backslash]) = dir"
    using assms(2) by auto
  ultimately show ?thesis using assms(3) by (simp add: wmakepath_s_def)
qed

lemma length_L [simp]: "length (L s) = length s"
  by (simp add: L_def)

lemma c_str_id: "0 \<notin> set s \<Longrightarrow> c_str s = s"
  by (auto simp: c_str_def takeWhile_eq_all_conv)

lemma c_str_no_NUL: "0 \<notin> set (c_str s)"
  by (auto simp: c_str_def dest: set_takeWhileD)

lemma c_str_idem: "c_str (c_str s) = c_str s"
  by (simp add: c_str_id c_str_no_NUL)

lemma c_str_example_path: "c_str example_path = example_path"
  by (simp add: c_str_def example_path_def L_def)

subsection \<open>The path returned\<close>

lemma GetTempSiblingPath_fit:
  assumes "split_parts (c_str P) = (drive, dir, fname, ext)" and "parts_fit (drive, dir, fname, ext)"
  shows "GetTempSiblingPath P t = swprintf_s (tmp_name (drive @ dir @ fname) t)"
proof -
  note f = split_parts_facts [OF assms(1)]
  have "length (drive @ dir) < MAX_PATH"
    using assms(2) f(3) by (simp add: parts_fit_def MAX_PATH_def MAX_DIR_def)
  then have "wmakepath_s drive dir [] [] = Some (drive @ dir)"
    using f(2,4) by (intro wmakepath_s_folder)
  then show ?thesis
    using assms by (simp add: GetTempSiblingPath_def wsplitpath_s_def tmp_name_def)
qed

lemma GetTempSiblingPath_erange:
  assumes "\<not> parts_fit (split_parts (c_str P))"
  shows "GetTempSiblingPath P t = Some (tmp_name [] t)"
proof -
  have "wmakepath_s [] [] [] [] = Some []" by (simp add: wmakepath_s_def MAX_PATH_def)
  moreover have "length (tmp_name [] t) < MAX_PATH"
    using length_to_wstring_tick [of t] by (simp add: tmp_name_def MAX_PATH_def)
  ultimately show ?thesis
    using assms by (simp add: GetTempSiblingPath_def wsplitpath_s_def tmp_name_def swprintf_s_def)
qed

lemma tmp_name_no_NUL: "0 \<notin> set base \<Longrightarrow> 0 \<notin> set (tmp_name base t)"
  using to_wstring_no_NUL [of "unat t"] by (simp add: tmp_name_def L_def)


lemma tmp_differs:
  assumes "GetTempSiblingPath P t = Some tmp"
  shows "c_str tmp = tmp \<and> tmp \<noteq> c_str P"
proof (cases "parts_fit (split_parts (c_str P))")
  case True
  obtain drive dir fname ext where sp: "split_parts (c_str P) = (drive, dir, fname, ext)"
    by (metis prod_cases4)
  note f = split_parts_facts [OF sp]
  have "swprintf_s (tmp_name (drive @ dir @ fname) t) = Some tmp"
    using GetTempSiblingPath_fit [OF sp] True sp assms by simp
  then have tmp: "tmp = tmp_name (drive @ dir @ fname) t"
    by (simp add: swprintf_s_def split: if_splits)
  have "0 \<notin> set (drive @ dir @ fname @ ext)" using f(1) c_str_no_NUL [of P] by simp
  then have "0 \<notin> set (drive @ dir @ fname)" by simp
  then have "c_str tmp = tmp" unfolding tmp by (intro c_str_id tmp_name_no_NUL)
  moreover have "tmp \<noteq> c_str P"
  proof
    assume "tmp = c_str P"
    then have "(drive @ dir @ fname) @ L ''_label_tmp_'' @ to_wstring (unat t) @ L ''.png''
                 = (drive @ dir @ fname) @ ext"
      using tmp f(1) by (simp add: tmp_name_def)
    then have e: "ext = L ''_label_tmp_'' @ to_wstring (unat t) @ L ''.png''"
      by (simp only: same_append_eq)
    then have "ext \<noteq> []" "hd ext \<noteq> dot" by (simp_all add: L_def dot_def)
    with f(5) show False by simp
  qed
  ultimately show ?thesis by simp
next
  case False
  have tmp: "tmp = tmp_name [] t" using GetTempSiblingPath_erange [OF False] assms by simp
  have "c_str tmp = tmp" unfolding tmp by (intro c_str_id tmp_name_no_NUL) simp
  moreover have "length tmp \<le> 25"
    using length_to_wstring_tick [of t] by (simp add: tmp tmp_name_def)
  moreover have "256 \<le> length (c_str P)"
  proof -
    obtain drive dir fname ext where sp: "split_parts (c_str P) = (drive, dir, fname, ext)"
      by (metis prod_cases4)
    note f = split_parts_facts [OF sp]
    have "256 \<le> length dir \<or> 256 \<le> length fname \<or> 256 \<le> length ext"
      using False f(3) sp
      by (auto simp: parts_fit_def MAX_DRIVE_def MAX_DIR_def MAX_FNAME_def MAX_EXT_def)
    moreover have "length (c_str P) = length drive + length dir + length fname + length ext"
      using f(1) by (metis length_append add.assoc)
    ultimately show ?thesis by linarith
  qed
  ultimately show ?thesis by auto
qed

lemma ex_split: "split_parts (c_str example_path) = (L ''C:'', L ''/pics/'', L ''a'', L ''.png'')"
  by (simp add: split_parts_def split_drive_def split_dir_def split_ext_def example_path_def
      c_str_def L_def colon_def slash_def backslash_def dot_def)

lemma ex_fit: "parts_fit (L ''C:'', L ''/pics/'', L ''a'', L ''.png'')"
  by (simp add: parts_fit_def MAX_DRIVE_def MAX_DIR_def MAX_FNAME_def MAX_EXT_def)

lemma ex_tmp: "GetTempSiblingPath example_path (GetTickCount 5000) = Some (L ''C:/pics/a_label_tmp_5000.png'')"
  by (simp add: GetTempSiblingPath_fit [OF ex_split ex_fit] tmp_name_def swprintf_s_def
      GetTickCount_def to_wstring_5000 MAX_PATH_def) (simp add: L_def)




section \<open>ProcessAndSave\<close>

subsection \<open>File operations and the branches of the function\<close>

lemma Save_elsewhere:
  "Save pf fs bmp calls target = (s, fs1) \<Longrightarrow> p \<noteq> target \<Longrightarrow> fs1 p = fs p"
  by (auto simp: Save_def split: if_splits option.splits)

lemma Save_status_eq: "Save pf fs bmp calls target = (s, fs1) \<Longrightarrow> s = Save_status pf"
  by (auto simp: Save_def split: if_splits)

lemma MoveFileExW_failed: "MoveFileExW pf fs a b = (Some e, fs2) \<Longrightarrow> fs2 = fs"
  by (auto simp: MoveFileExW_def split: option.splits)

lemma MoveFileExW_error_code:
  "MoveFileExW_error pf = Some e \<Longrightarrow> MoveFileExW pf fs a b = (Some e, fs)"
  by (simp add: MoveFileExW_def)

lemma ex_found: "GetEncoderClsid png_registry (L ''image/png'') 0 = (1, 2)"
  by (simp add: GetEncoderClsid_def png_registry_def Ok_def L_def c_str_def)

lemma ProcessAndSave_overwrite_unfold:
  assumes "GdiplusStartup pf = Ok" and "Bitmap_FromFile pf fs (c_str src) = Some bmp"
    and "fst (GetEncoderClsid (registry pf) (L ''image/png'') 0) \<noteq> -1"
    and "GetTempSiblingPath src (GetTickCount (uptime_ms pf)) = Some tmp"
    and "Save pf fs bmp
           (draw_calls (rounding pf) (IsAvailable pf) (GetWidth bmp) (GetHeight bmp) label
              (Height (MeasureString pf label (sint (word_of_nat (length label) :: 32 word))
                 (font (rounding pf) (IsAvailable pf) (GetHeight bmp))
                 (layoutRect (rounding pf) (GetWidth bmp) (GetHeight bmp)) sf)))
           (c_str tmp) = (s, fs1)"
  shows "ProcessAndSave pf fs src label True sp er =
           (if s \<noteq> Ok
            then (Returned False sp (L ''Save to temp failed (status '' @ to_wstring s @ L '').''), fs1)
            else (case MoveFileExW pf fs1 (c_str tmp) (c_str src) of
                    (None, fs2) \<Rightarrow> (Returned True src er, fs2)
                  | (Some e, fs2) \<Rightarrow>
                      (Returned False sp
                         (L ''Replace original failed. Win32 error '' @ to_wstring (unat e)
                          @ L '': '' @ LastErrorText pf e),
                       DeleteFileW pf fs2 (c_str tmp))))"
  using assms by (auto simp: ProcessAndSave_def Let_def split: prod.splits)

lemma ProcessAndSave_early:
  "GdiplusStartup pf \<noteq> Ok \<or> Bitmap_FromFile pf fs (c_str src) = None
     \<or> (GdiplusStartup pf = Ok \<and> Bitmap_FromFile pf fs (c_str src) \<noteq> None \<and> fst (GetEncoderClsid (registry pf) (L ''image/png'') 0) = -1)
   \<Longrightarrow> snd (ProcessAndSave pf fs src label ow sp er) = fs
       \<and> \<not> succeeded (fst (ProcessAndSave pf fs src label ow sp er))"
  by (auto simp: ProcessAndSave_def Let_def succeeded_def split: prod.splits option.splits)

lemma ProcessAndSave_no_encoder:
  assumes "GdiplusStartup pf = Ok" and "Bitmap_FromFile pf fs (c_str src) = Some bmp"
    and "fst (GetEncoderClsid (registry pf) (L ''image/png'') 0) = -1"
  shows "ProcessAndSave pf fs src label ow sp er
           = (Returned False sp (L ''PNG encoder not found (GDI+).''), fs)"
  using assms by (auto simp: ProcessAndSave_def Let_def split: prod.splits)

lemma overwrite_failure_keeps_source:
  assumes a: "ProcessAndSave pf fs src label True sp er = (out, fs')" "\<not> succeeded out"
  shows "fs' (c_str src) = fs (c_str src)"
proof (cases "GdiplusStartup pf \<noteq> Ok \<or> Bitmap_FromFile pf fs (c_str src) = None
     \<or> (GdiplusStartup pf = Ok \<and> Bitmap_FromFile pf fs (c_str src) \<noteq> None
         \<and> fst (GetEncoderClsid (registry pf) (L ''image/png'') 0) = -1)")
  case True
  from ProcessAndSave_early [OF True, of label True sp er] a show ?thesis by simp
next
  case False
  then obtain bmp where b: "GdiplusStartup pf = Ok" "Bitmap_FromFile pf fs (c_str src) = Some bmp"
    "fst (GetEncoderClsid (registry pf) (L ''image/png'') 0) \<noteq> -1" by auto
  show ?thesis
  proof (cases "GetTempSiblingPath src (GetTickCount (uptime_ms pf))")
    case None
    with b a show ?thesis
      by (auto simp: ProcessAndSave_def Let_def split: prod.splits)
  next
    case (Some tmp)
    note d = tmp_differs [OF Some]
    obtain s fs1 where sv: "Save pf fs bmp
         (draw_calls (rounding pf) (IsAvailable pf) (GetWidth bmp) (GetHeight bmp) label
            (Height (MeasureString pf label (sint (word_of_nat (length label) :: 32 word))
               (font (rounding pf) (IsAvailable pf) (GetHeight bmp))
               (layoutRect (rounding pf) (GetWidth bmp) (GetHeight bmp)) sf)))
         (c_str tmp) = (s, fs1)" by force
    have fs1: "fs1 (c_str src) = fs (c_str src)"
      using Save_elsewhere [OF sv, of "c_str src"] d by auto
    note u = ProcessAndSave_overwrite_unfold [OF b Some sv, of sp er]
    show ?thesis
    proof (cases "s = Ok")
      case False
      with u a fs1 show ?thesis by simp
    next
      case True
      obtain r fs2 where mv: "MoveFileExW pf fs1 (c_str tmp) (c_str src) = (r, fs2)" by force
      show ?thesis
      proof (cases r)
        case None
        with u a True mv show ?thesis by (simp add: succeeded_def)
      next
        case (Some e)
        with mv have "fs2 = fs1" by (simp add: MoveFileExW_failed)
        with u a True mv Some fs1 d show ?thesis
          by (auto simp: DeleteFileW_def)
      qed
    qed
  qed
qed

lemma overwrite_rename_failure:
  assumes h: "GdiplusStartup pf = Ok" "Bitmap_FromFile pf fs (c_str src) = Some bmp"
      "fst (GetEncoderClsid (registry pf) (L ''image/png'') 0) \<noteq> -1"
    and tmp: "GetTempSiblingPath src (GetTickCount (uptime_ms pf)) = Some tmp"
    and ok: "Save_status pf = Ok" and mf: "MoveFileExW_error pf = Some e"
    and run: "ProcessAndSave pf fs src label True sp er = (out, fs')"
  shows "out = Returned False sp
                 (L ''Replace original failed. Win32 error '' @ to_wstring (unat e)
                  @ L '': '' @ LastErrorText pf e)"
    and "fs' (c_str src) = fs (c_str src)"
    and "DeleteFileW_ok pf \<longrightarrow> fs' tmp = None"
proof -
  note d = tmp_differs [OF tmp]
  obtain s fs1 where sv: "Save pf fs bmp
           (draw_calls (rounding pf) (IsAvailable pf) (GetWidth bmp) (GetHeight bmp) label
              (Height (MeasureString pf label (sint (word_of_nat (length label) :: 32 word))
                 (font (rounding pf) (IsAvailable pf) (GetHeight bmp))
                 (layoutRect (rounding pf) (GetWidth bmp) (GetHeight bmp)) sf)))
           (c_str tmp) = (s, fs1)" by force
  have s: "s = Ok" using Save_status_eq [OF sv] ok by simp
  have fs1: "fs1 (c_str src) = fs (c_str src)"
    using Save_elsewhere [OF sv, of "c_str src"] d by auto
  have mv: "MoveFileExW pf fs1 (c_str tmp) (c_str src) = (Some e, fs1)"
    using mf by (simp add: MoveFileExW_error_code)
  have u: "ProcessAndSave pf fs src label True sp er =
             (Returned False sp
                (L ''Replace original failed. Win32 error '' @ to_wstring (unat e)
                 @ L '': '' @ LastErrorText pf e),
              DeleteFileW pf fs1 (c_str tmp))"
    using ProcessAndSave_overwrite_unfold [OF h tmp sv, of sp er] s mv by simp
  show "out = Returned False sp
                 (L ''Replace original failed. Win32 error '' @ to_wstring (unat e)
                  @ L '': '' @ LastErrorText pf e)"
    using u run by simp
  have f: "fs' = DeleteFileW pf fs1 (c_str tmp)" using u run by simp
  show "fs' (c_str src) = fs (c_str src)" using f fs1 d by (auto simp: DeleteFileW_def)
  show "DeleteFileW_ok pf \<longrightarrow> fs' tmp = None" using f d by (auto simp: DeleteFileW_def)
qed

subsection \<open>Overwrite mode\<close>

text \<open>
  Claim C1. In overwrite mode, whenever a run of \<open>ProcessAndSave\<close> does not succeed (it
  returns \<^verbatim>\<open>false\<close>, or the process ends in \<open>GetTempSiblingPath\<close>), the source file holds the
  bytes it held before. In particular, when the image was loaded, the encoder found, the
  temporary file saved and the move over the source path fails with error code \<open>e\<close>, the
  function returns \<^verbatim>\<open>false\<close> with the message "Replace original failed. Win32 error",
  the code \<open>e\<close> in decimal and the system message of \<open>e\<close>; the source file is unchanged,
  and the temporary file is gone if its deletion succeeded.
\<close>

theorem ProcessAndSave_overwrite_safe:
  "(ProcessAndSave pf fs src label True sp er = (out, fs') \<and> \<not> succeeded out
      \<longrightarrow> fs' (c_str src) = fs (c_str src))
   \<and> (GdiplusStartup pf = Ok \<and> Bitmap_FromFile pf fs (c_str src) = Some bmp
       \<and> fst (GetEncoderClsid (registry pf) (L ''image/png'') 0) \<noteq> -1
       \<and> GetTempSiblingPath src (GetTickCount (uptime_ms pf)) = Some tmp
       \<and> Save_status pf = Ok \<and> MoveFileExW_error pf = Some e
       \<and> ProcessAndSave pf fs src label True sp er = (out, fs')
      \<longrightarrow> out = Returned False sp
                 (L ''Replace original failed. Win32 error '' @ to_wstring (unat e)
                  @ L '': '' @ LastErrorText pf e)
          \<and> fs' (c_str src) = fs (c_str src)
          \<and> (DeleteFileW_ok pf \<longrightarrow> fs' tmp = None))"
  using overwrite_failure_keeps_source [of pf fs src label sp er out fs']
    overwrite_rename_failure [of pf fs src bmp tmp e label sp er out fs']
  by blast

theorem ProcessAndSave_overwrite_safe_witness:
  "snd (ProcessAndSave example_platform example_fs example_path (L ''x'') True [] []) (c_str example_path)
     = example_fs (c_str example_path)
   \<and> fst (ProcessAndSave example_platform example_fs example_path (L ''x'') True [] [])
     = Returned False [] (L ''Replace original failed. Win32 error 32: The file is in use.'')
   \<and> snd (ProcessAndSave example_platform example_fs example_path (L ''x'') True [] [])
         (L ''C:/pics/a_label_tmp_5000.png'') = None"
proof -
  let ?R = "ProcessAndSave example_platform example_fs example_path (L ''x'') True [] []"
  note T = ProcessAndSave_overwrite_safe [of example_platform example_fs example_path "L ''x''" "[]" "[]"
      "fst ?R" "snd ?R" example_bitmap "L ''C:/pics/a_label_tmp_5000.png''" 32]
  have h: "GdiplusStartup example_platform = Ok
       \<and> Bitmap_FromFile example_platform example_fs (c_str example_path) = Some example_bitmap
       \<and> fst (GetEncoderClsid (registry example_platform) (L ''image/png'') 0) \<noteq> -1
       \<and> GetTempSiblingPath example_path (GetTickCount (uptime_ms example_platform))
           = Some (L ''C:/pics/a_label_tmp_5000.png'')
       \<and> Save_status example_platform = Ok \<and> MoveFileExW_error example_platform = Some 32
       \<and> ?R = (fst ?R, snd ?R)"
    by (simp add: example_platform_def c_str_example_path example_fs_def ex_found ex_tmp)
  have o: "fst ?R = Returned False []
                 (L ''Replace original failed. Win32 error '' @ to_wstring (unat (32 :: 32 word))
                  @ L '': '' @ LastErrorText example_platform 32)"
    and d: "DeleteFileW_ok example_platform \<longrightarrow> snd ?R (L ''C:/pics/a_label_tmp_5000.png'') = None"
    using T h by blast+
  have "\<not> succeeded (fst ?R)" using o by (simp add: succeeded_def)
  then have s: "snd ?R (c_str example_path) = example_fs (c_str example_path)"
    using T h by blast
  have m: "LastErrorText example_platform 32 = L ''The file is in use.''"
    by (simp add: LastErrorText_def example_platform_def c_str_def L_def)
  have "fst ?R = Returned False [] (L ''Replace original failed. Win32 error 32: The file is in use.'')"
    using o by (simp add: m to_wstring_32) (simp add: L_def)
  moreover have "snd ?R (L ''C:/pics/a_label_tmp_5000.png'') = None"
    using d by (simp add: example_platform_def)
  ultimately show ?thesis using s by blast
qed

section \<open>Encoder selection\<close>

lemma loop_no_match:
  "\<forall>e \<in> set es. c_str (MimeType e) \<noteq> c_str format \<Longrightarrow>
     GetEncoderClsid_loop es j format c = (-1, c)"
  by (induction es arbitrary: j) auto

lemma loop_first_match:
  "i < length es \<Longrightarrow> c_str (MimeType (es ! i)) = c_str format \<Longrightarrow>
   \<forall>k < i. c_str (MimeType (es ! k)) \<noteq> c_str format \<Longrightarrow>
     GetEncoderClsid_loop es j format c = (sint (word_of_nat (j + i) :: 32 word), Clsid (es ! i))"
proof (induction es arbitrary: i j)
  case Nil
  then show ?case by simp
next
  case (Cons e es)
  show ?case
  proof (cases i)
    case 0
    with Cons.prems show ?thesis by simp
  next
    case (Suc i')
    from Cons.prems(3) Suc have ne: "c_str (MimeType e) \<noteq> c_str format" by auto
    have "\<forall>k < i'. c_str (MimeType (es ! k)) \<noteq> c_str format"
      using Cons.prems(3) Suc by auto
    with Cons.IH [of i' "j + 1"] Cons.prems(1,2) Suc ne show ?thesis by simp
  qed
qed

lemma loop_found_match:
  "fst (GetEncoderClsid_loop es j format c) \<noteq> -1 \<Longrightarrow>
     \<exists>e \<in> set es. c_str (MimeType e) = c_str format"
  by (induction es arbitrary: j) (auto split: if_splits)

lemma sint_index:
  assumes "i < 2 ^ 31"
  shows "sint (word_of_nat i :: 32 word) = int i"
proof -
  have "sint (word_of_nat i :: 32 word) = signed_take_bit 31 (int i)"
    by (simp add: signed_of_nat)
  moreover have "int i < int (2 ^ 31)" using assms by (simp only: of_nat_less_iff)
  then have "int i < 2 ^ 31" by simp
  then have "signed_take_bit 31 (int i) = int i"
    by (intro signed_take_bit_int_eq_self) auto
  ultimately show ?thesis by simp
qed

text \<open>
  Claim C10. \<open>GetEncoderClsid\<close> returns a non-negative number only if some registered
  encoder has exactly the requested MIME type. When the enumeration works and \<open>i\<close> is the
  first index whose encoder has that MIME type, it returns \<open>i\<close> and that encoder's CLSID.
  It returns -1, leaving the CLSID as it was, when no registered encoder matches, and also
  when the enumeration reports size zero or fails, whatever is registered. Whenever the
  result for \<open>image/png\<close> is -1, and so in each of these three cases, \<open>ProcessAndSave\<close>
  reports "PNG encoder not found (GDI+)." and touches no file.
  (The array has fewer than \<open>2^31\<close> entries, so that the index fits the \<^verbatim>\<open>int\<close> returned.)
\<close>

theorem GetEncoderClsid_spec:
  assumes small: "length (enc_array reg) < 2 ^ 31"
  shows
    "(0 \<le> fst (GetEncoderClsid reg format c)
        \<longrightarrow> (\<exists>e \<in> set (enc_array reg). c_str (MimeType e) = c_str format))
     \<and> (enc_size reg \<noteq> 0 \<and> enc_status reg = Ok \<and> i < length (enc_array reg)
          \<and> c_str (MimeType (enc_array reg ! i)) = c_str format
          \<and> (\<forall>k < i. c_str (MimeType (enc_array reg ! k)) \<noteq> c_str format)
        \<longrightarrow> GetEncoderClsid reg format c = (int i, Clsid (enc_array reg ! i)))
     \<and> ((\<forall>e \<in> set (enc_array reg). c_str (MimeType e) \<noteq> c_str format)
        \<longrightarrow> GetEncoderClsid reg format c = (-1, c))
     \<and> (enc_size reg = 0 \<or> enc_status reg \<noteq> Ok
        \<longrightarrow> GetEncoderClsid reg format c = (-1, c))
     \<and> (GdiplusStartup pf = Ok \<and> Bitmap_FromFile pf fs (c_str src) = Some bmp
         \<and> registry pf = reg \<and> fst (GetEncoderClsid reg (L ''image/png'') 0) = -1
        \<longrightarrow> ProcessAndSave pf fs src label overwrite sp er
             = (Returned False sp (L ''PNG encoder not found (GDI+).''), fs))
     \<and> (GdiplusStartup pf = Ok \<and> Bitmap_FromFile pf fs (c_str src) = Some bmp
         \<and> registry pf = reg
         \<and> (enc_size reg = 0 \<or> enc_status reg \<noteq> Ok
              \<or> (\<forall>e \<in> set (enc_array reg). c_str (MimeType e) \<noteq> c_str (L ''image/png'')))
        \<longrightarrow> ProcessAndSave pf fs src label overwrite sp er
             = (Returned False sp (L ''PNG encoder not found (GDI+).''), fs))"
proof (intro conjI impI)
  assume "0 \<le> fst (GetEncoderClsid reg format c)"
  then have "fst (GetEncoderClsid_loop (enc_array reg) 0 format c) \<noteq> -1"
    by (auto simp: GetEncoderClsid_def split: if_splits)
  then show "\<exists>e \<in> set (enc_array reg). c_str (MimeType e) = c_str format"
    by (rule loop_found_match)
next
  assume h: "enc_size reg \<noteq> 0 \<and> enc_status reg = Ok \<and> i < length (enc_array reg)
          \<and> c_str (MimeType (enc_array reg ! i)) = c_str format
          \<and> (\<forall>k < i. c_str (MimeType (enc_array reg ! k)) \<noteq> c_str format)"
  then have "GetEncoderClsid_loop (enc_array reg) 0 format c
               = (sint (word_of_nat (0 + i) :: 32 word), Clsid (enc_array reg ! i))"
    by (intro loop_first_match) auto
  moreover have "i < 2 ^ 31" using h small by linarith
  ultimately show "GetEncoderClsid reg format c = (int i, Clsid (enc_array reg ! i))"
    using h by (simp add: GetEncoderClsid_def sint_index)
next
  assume "\<forall>e \<in> set (enc_array reg). c_str (MimeType e) \<noteq> c_str format"
  then show "GetEncoderClsid reg format c = (-1, c)"
    by (simp add: GetEncoderClsid_def loop_no_match)
next
  assume "enc_size reg = 0 \<or> enc_status reg \<noteq> Ok"
  then show "GetEncoderClsid reg format c = (-1, c)"
    by (auto simp: GetEncoderClsid_def)
next
  assume h: "GdiplusStartup pf = Ok \<and> Bitmap_FromFile pf fs (c_str src) = Some bmp
         \<and> registry pf = reg \<and> fst (GetEncoderClsid reg (L ''image/png'') 0) = -1"
  then show "ProcessAndSave pf fs src label overwrite sp er
             = (Returned False sp (L ''PNG encoder not found (GDI+).''), fs)"
    by (intro ProcessAndSave_no_encoder) simp_all
next
  assume h: "GdiplusStartup pf = Ok \<and> Bitmap_FromFile pf fs (c_str src) = Some bmp
         \<and> registry pf = reg
         \<and> (enc_size reg = 0 \<or> enc_status reg \<noteq> Ok
              \<or> (\<forall>e \<in> set (enc_array reg). c_str (MimeType e) \<noteq> c_str (L ''image/png'')))"
  then have "GetEncoderClsid (registry pf) (L ''image/png'') 0 = (-1, 0)"
    by (auto simp: GetEncoderClsid_def loop_no_match)
  then show "ProcessAndSave pf fs src label overwrite sp er
             = (Returned False sp (L ''PNG encoder not found (GDI+).''), fs)"
    using h by (intro ProcessAndSave_no_encoder) simp_all
qed

theorem GetEncoderClsid_spec_witness:
  "GetEncoderClsid png_registry (L ''image/png'') 0 = (1, 2)
   \<and> GetEncoderClsid png_registry (L ''image/tiff'') 7 = (-1, 7)
   \<and> (\<exists>e \<in> set (enc_array (png_registry\<lparr>enc_size := 0\<rparr>)). c_str (MimeType e) = c_str (L ''image/png''))
   \<and> GetEncoderClsid (png_registry\<lparr>enc_size := 0\<rparr>) (L ''image/png'') 0 = (-1, 0)
   \<and> ProcessAndSave (example_platform\<lparr>registry := png_registry\<lparr>enc_size := 0\<rparr>\<rparr>) example_fs
         example_path (L ''x'') False [] []
       = (Returned False [] (L ''PNG encoder not found (GDI+).''), example_fs)
   \<and> ProcessAndSave (example_platform\<lparr>registry := png_registry\<lparr>enc_status := 1\<rparr>\<rparr>) example_fs
         example_path (L ''x'') True [] []
       = (Returned False [] (L ''PNG encoder not found (GDI+).''), example_fs)
   \<and> ProcessAndSave (example_platform\<lparr>registry := bmp_registry\<rparr>) example_fs
         example_path (L ''x'') False [] []
       = (Returned False [] (L ''PNG encoder not found (GDI+).''), example_fs)"
proof -
  let ?r0 = "png_registry\<lparr>enc_size := 0\<rparr>"
  let ?r1 = "png_registry\<lparr>enc_status := 1\<rparr>"
  let ?pf0 = "example_platform\<lparr>registry := ?r0\<rparr>"
  let ?pf1 = "example_platform\<lparr>registry := ?r1\<rparr>"
  let ?pf2 = "example_platform\<lparr>registry := bmp_registry\<rparr>"
  have small: "length (enc_array png_registry) < 2 ^ 31"
    and small0: "length (enc_array ?r0) < 2 ^ 31"
    and small1: "length (enc_array ?r1) < 2 ^ 31"
    and small2: "length (enc_array bmp_registry) < 2 ^ 31"
    by (simp_all add: png_registry_def bmp_registry_def)
  have h2: "enc_size png_registry \<noteq> 0 \<and> enc_status png_registry = Ok
          \<and> 1 < length (enc_array png_registry)
          \<and> c_str (MimeType (enc_array png_registry ! 1)) = c_str (L ''image/png'')
          \<and> (\<forall>k < 1. c_str (MimeType (enc_array png_registry ! k)) \<noteq> c_str (L ''image/png''))"
    by (simp add: png_registry_def c_str_def L_def)
  have h3: "\<forall>e \<in> set (enc_array png_registry). c_str (MimeType e) \<noteq> c_str (L ''image/tiff'')"
    by (simp add: png_registry_def c_str_def L_def)
  have h4: "enc_size ?r0 = 0 \<or> enc_status ?r0 \<noteq> Ok"
    by simp
  note T1 = GetEncoderClsid_spec [OF small, of "L ''image/png''" 0 1 example_platform example_fs
      example_path example_bitmap "L ''x''" False "[]" "[]"]
  note T2 = GetEncoderClsid_spec [OF small, of "L ''image/tiff''" 7 0 example_platform example_fs
      example_path example_bitmap "L ''x''" False "[]" "[]"]
  note T3 = GetEncoderClsid_spec [OF small0, of "L ''image/png''" 0 0 ?pf0 example_fs
      example_path example_bitmap "L ''x''" False "[]" "[]"]
  note T4 = GetEncoderClsid_spec [OF small1, of "L ''image/png''" 0 0 ?pf1 example_fs
      example_path example_bitmap "L ''x''" True "[]" "[]"]
  note T5 = GetEncoderClsid_spec [OF small2, of "L ''image/png''" 0 0 ?pf2 example_fs
      example_path example_bitmap "L ''x''" False "[]" "[]"]
  have a: "GetEncoderClsid png_registry (L ''image/png'') 0 = (int 1, Clsid (enc_array png_registry ! 1))"
    by (rule T1 [THEN conjunct2, THEN conjunct1, THEN mp]) (rule h2)
  have b: "GetEncoderClsid png_registry (L ''image/tiff'') 7 = (-1, 7)"
    by (rule T2 [THEN conjunct2, THEN conjunct2, THEN conjunct1, THEN mp]) (rule h3)
  have c: "GetEncoderClsid ?r0 (L ''image/png'') 0 = (-1, 0)"
    by (rule T3 [THEN conjunct2, THEN conjunct2, THEN conjunct2, THEN conjunct1, THEN mp])
      (rule h4)
  have "0 \<le> fst (GetEncoderClsid png_registry (L ''image/png'') 0)" using a by simp
  then have "\<exists>e \<in> set (enc_array png_registry). c_str (MimeType e) = c_str (L ''image/png'')"
    by (rule T1 [THEN conjunct1, THEN mp])
  then have d: "\<exists>e \<in> set (enc_array ?r0). c_str (MimeType e) = c_str (L ''image/png'')"
    by simp
  have h5: "GdiplusStartup ?pf0 = Ok \<and> Bitmap_FromFile ?pf0 example_fs (c_str example_path) = Some example_bitmap
         \<and> registry ?pf0 = ?r0 \<and> fst (GetEncoderClsid ?r0 (L ''image/png'') 0) = -1"
    using c by (simp add: example_platform_def c_str_example_path example_fs_def)
  have e: "ProcessAndSave ?pf0 example_fs example_path (L ''x'') False [] []
       = (Returned False [] (L ''PNG encoder not found (GDI+).''), example_fs)"
    by (rule T3 [THEN conjunct2, THEN conjunct2, THEN conjunct2, THEN conjunct2, THEN conjunct1, THEN mp])
      (rule h5)
  have h6: "GdiplusStartup ?pf1 = Ok \<and> Bitmap_FromFile ?pf1 example_fs (c_str example_path) = Some example_bitmap
         \<and> registry ?pf1 = ?r1
         \<and> (enc_size ?r1 = 0 \<or> enc_status ?r1 \<noteq> Ok
              \<or> (\<forall>e \<in> set (enc_array ?r1). c_str (MimeType e) \<noteq> c_str (L ''image/png'')))"
    by (simp add: example_platform_def c_str_example_path example_fs_def Ok_def)
  have f: "ProcessAndSave ?pf1 example_fs example_path (L ''x'') True [] []
       = (Returned False [] (L ''PNG encoder not found (GDI+).''), example_fs)"
    by (rule T4 [THEN conjunct2, THEN conjunct2, THEN conjunct2, THEN conjunct2, THEN conjunct2, THEN mp])
      (rule h6)
  have nm: "\<forall>e \<in> set (enc_array bmp_registry). c_str (MimeType e) \<noteq> c_str (L ''image/png'')"
    by (simp add: bmp_registry_def c_str_def L_def)
  have h7: "GdiplusStartup ?pf2 = Ok \<and> Bitmap_FromFile ?pf2 example_fs (c_str example_path) = Some example_bitmap
         \<and> registry ?pf2 = bmp_registry
         \<and> (enc_size bmp_registry = 0 \<or> enc_status bmp_registry \<noteq> Ok
              \<or> (\<forall>e \<in> set (enc_array bmp_registry). c_str (MimeType e) \<noteq> c_str (L ''image/png'')))"
    using nm by (simp add: example_platform_def c_str_example_path example_fs_def)
  have g: "ProcessAndSave ?pf2 example_fs example_path (L ''x'') False [] []
       = (Returned False [] (L ''PNG encoder not found (GDI+).''), example_fs)"
    by (rule T5 [THEN conjunct2, THEN conjunct2, THEN conjunct2, THEN conjunct2, THEN conjunct2, THEN mp])
      (rule h7)
  from a have "GetEncoderClsid png_registry (L ''image/png'') 0 = (1, 2)"
    by (simp add: png_registry_def)
  with b c d e f g show ?thesis by (intro conjI)
qed

section \<open>The exit code\<close>

subsection \<open>Exit codes of the runs that return\<close>

lemma Trim_a_all:
  "a \<le> b \<Longrightarrow> \<forall>i. a \<le> i \<and> i < b \<longrightarrow> iswspace (s ! i) \<Longrightarrow> Trim_a iswspace s a b = b"
proof (induction iswspace s a b rule: Trim_a.induct)
  case (1 iswspace s a b)
  show ?case
  proof (cases "a < b")
    case True
    then have "iswspace (s ! a)" using "1.prems" by simp
    with True "1.IH" "1.prems" show ?thesis by (subst Trim_a.simps) simp
  next
    case False
    with "1.prems" show ?thesis by (subst Trim_a.simps) simp
  qed
qed

lemma Trim_all_space:
  assumes "\<forall>c \<in> set s. iswspace c"
  shows "Trim iswspace s = []"
proof -
  have "Trim_a iswspace s 0 (length s) = length s"
    using assms by (intro Trim_a_all) simp_all
  then show ?thesis by (simp add: Trim_def Let_def)
qed

lemma set_GetWindowTextW: "set (GetWindowTextW text) \<subseteq> set text"
  by (auto simp: GetWindowTextW_def c_str_def dest: in_set_takeD set_takeWhileD)

lemma PromptForText_declined:
  assumes "ev = CreateWindowFailed \<or> ev = PressCancel \<or> ev = CloseWindow
           \<or> (\<exists>text. ev = PressOK text \<and> (\<forall>c \<in> set text. iswspace c))"
  shows "PromptForText iswspace ev out = (False, out)"
proof -
  have "Trim iswspace (GetWindowTextW t) = []" if "\<forall>c \<in> set t. iswspace c" for t
    using that set_GetWindowTextW [of t] by (intro Trim_all_space) blast
  then show ?thesis using assms by (auto simp: PromptForText_def Let_def)
qed

text \<open>
  The exit code is 1 when the path argument is missing and 2 when the path does not
  exist. It is 0, with the file system untouched, when the label prompt is cancelled,
  closed or cannot be shown, when the text entered is empty or all whitespace, and when
  the overwrite/copy question is cancelled.
\<close>

lemma wWinMain_early_exits:
  "(length argv < 2 \<longrightarrow> wWinMain pf exists iswspace argv ev choice fs = (Some 1, fs))
   \<and> (2 \<le> length argv \<and> \<not> exists (c_str (argv ! 1))
        \<longrightarrow> wWinMain pf exists iswspace argv ev choice fs = (Some 2, fs))
   \<and> (2 \<le> length argv \<and> exists (c_str (argv ! 1))
       \<and> (ev = CreateWindowFailed \<or> ev = PressCancel \<or> ev = CloseWindow
           \<or> (\<exists>text. ev = PressOK text \<and> (\<forall>c \<in> set text. iswspace c)))
        \<longrightarrow> wWinMain pf exists iswspace argv ev choice fs = (Some 0, fs))
   \<and> (2 \<le> length argv \<and> exists (c_str (argv ! 1)) \<and> choice = IDCANCEL
        \<longrightarrow> wWinMain pf exists iswspace argv ev choice fs = (Some 0, fs))"
proof (intro conjI impI)
  assume "length argv < 2"
  then show "wWinMain pf exists iswspace argv ev choice fs = (Some 1, fs)"
    by (simp add: wWinMain_def)
next
  assume "2 \<le> length argv \<and> \<not> exists (c_str (argv ! 1))"
  then show "wWinMain pf exists iswspace argv ev choice fs = (Some 2, fs)"
    by (simp add: wWinMain_def Let_def c_str_idem)
next
  assume h: "2 \<le> length argv \<and> exists (c_str (argv ! 1))
       \<and> (ev = CreateWindowFailed \<or> ev = PressCancel \<or> ev = CloseWindow
           \<or> (\<exists>text. ev = PressOK text \<and> (\<forall>c \<in> set text. iswspace c)))"
  then have "PromptForText iswspace ev [] = (False, [])"
    by (intro PromptForText_declined) blast
  with h show "wWinMain pf exists iswspace argv ev choice fs = (Some 0, fs)"
    by (simp add: wWinMain_def Let_def c_str_idem)
next
  assume h: "2 \<le> length argv \<and> exists (c_str (argv ! 1)) \<and> choice = IDCANCEL"
  obtain acc label where "PromptForText iswspace ev [] = (acc, label)" by force
  with h show "wWinMain pf exists iswspace argv ev choice fs = (Some 0, fs)"
    by (cases acc) (simp_all add: wWinMain_def Let_def c_str_idem)
qed

text \<open>
  Once a label is accepted and the question answered, the exit code is 3 when GDI+ does
  not start, the image does not load, no PNG encoder is found, the save fails or the move
  over the source fails, and 0 otherwise; except that in overwrite mode, when the temporary
  path does not fit its buffer, the process ends in \<open>GetTempSiblingPath\<close> and \<open>wWinMain\<close>
  returns no exit code.
\<close>

lemma wWinMain_exit_code:
  assumes "2 \<le> length argv" and "exists (c_str (argv ! 1))"
    and "PromptForText iswspace ev [] = (True, label)" and "choice \<noteq> IDCANCEL"
  shows "fst (wWinMain pf exists iswspace argv ev choice fs) =
     (if GdiplusStartup pf \<noteq> Ok then Some 3
      else if Bitmap_FromFile pf fs (c_str (argv ! 1)) = None then Some 3
      else if fst (GetEncoderClsid (registry pf) (L ''image/png'') 0) = -1 then Some 3
      else if choice = IDYES then
        (case GetTempSiblingPath (c_str (argv ! 1)) (GetTickCount (uptime_ms pf)) of
           None \<Rightarrow> None
         | Some tmp \<Rightarrow>
             if Save_status pf \<noteq> Ok then Some 3
             else if MoveFileExW_error pf \<noteq> None then Some 3
             else Some 0)
      else if Save_status pf \<noteq> Ok then Some 3 else Some 0)"
  using assms
  by (auto simp: wWinMain_def ProcessAndSave_def Let_def c_str_idem Save_def MoveFileExW_def
      split: option.splits prod.splits)

subsection \<open>A source path whose temporary path does not fit\<close>

lemma long_stem: "L (replicate 237 CHR ''a'') = replicate 237 97"
  by (simp add: L_def)

lemma long_path_no_NUL: "0 \<notin> set long_path"
  by (simp add: long_path_def long_stem) (simp add: L_def)

lemma c_str_long_path: "c_str long_path = long_path"
  by (rule c_str_id) (rule long_path_no_NUL)

lemma long_split:
  "split_parts (c_str long_path) = (L ''C:'', L ''/pics/'', replicate 237 97, L ''.png'')"
proof -
  let ?stem = "replicate 237 97 :: wstring"
  have p: "long_path = L ''C:'' @ L ''/pics/'' @ ?stem @ L ''.png''"
    by (simp add: long_path_def long_stem) (simp add: L_def)
  have d: "split_drive long_path = (L ''C:'', L ''/pics/'' @ ?stem @ L ''.png'')"
    unfolding p by (simp add: split_drive_def L_def colon_def)
  have s: "L ''/pics/'' @ ?stem @ L ''.png'' = L ''/pics'' @ slash # (?stem @ L ''.png'')"
    by (simp add: L_def slash_def)
  have "find_last_of (L ''/pics'' @ slash # (?stem @ L ''.png'')) [slash, backslash]
          = Some (length (L ''/pics''))"
    by (rule find_last_of_at) (simp_all add: L_def slash_def backslash_def)
  then have fl: "find_last_of (L ''/pics/'' @ ?stem @ L ''.png'') [slash, backslash] = Some 5"
    unfolding s by simp
  have r: "split_dir (L ''/pics/'' @ ?stem @ L ''.png'') = (L ''/pics/'', ?stem @ L ''.png'')"
    unfolding split_dir_def fl by (simp add: L_def)
  have s2: "?stem @ L ''.png'' = ?stem @ dot # L ''png''"
    by (simp add: L_def dot_def)
  have "find_last_of (?stem @ dot # L ''png'') [dot] = Some (length ?stem)"
    by (rule find_last_of_at) (simp_all add: L_def dot_def)
  then have fe: "find_last_of (?stem @ L ''.png'') [dot] = Some 237"
    unfolding s2 by simp
  have e: "split_ext (?stem @ L ''.png'') = (?stem, L ''.png'')"
    unfolding split_ext_def fe by simp
  show ?thesis
    unfolding split_parts_def c_str_long_path d by (simp only: Let_def prod.case r e)
qed

lemma long_tmp: "GetTempSiblingPath long_path (GetTickCount 5000) = None"
proof -
  have f: "parts_fit (L ''C:'', L ''/pics/'', replicate 237 97, L ''.png'')"
    by (simp add: parts_fit_def MAX_DRIVE_def MAX_DIR_def MAX_FNAME_def MAX_EXT_def)
  show ?thesis
    by (simp add: GetTempSiblingPath_fit [OF long_split f] tmp_name_def swprintf_s_def
        GetTickCount_def to_wstring_5000 MAX_PATH_def)
qed

lemma prompt_plain_x: "PromptForText example_iswspace (PressOK (L ''x'')) [] = (True, L ''x'')"
  by (simp add: PromptForText_def GetWindowTextW_def Trim_def Let_def c_str_def L_def
      Trim_a.simps Trim_b.simps example_iswspace_def)

lemma long_load:
  "Bitmap_FromFile example_platform long_fs (c_str long_path) = Some example_bitmap"
  by (simp add: c_str_long_path example_platform_def long_fs_def)

lemma long_run:
  "ProcessAndSave example_platform long_fs long_path (L ''x'') True [] [] = (Aborted, long_fs)"
proof -
  have g: "GdiplusStartup example_platform = Ok" by (simp add: example_platform_def)
  have r: "GetEncoderClsid (registry example_platform) (L ''image/png'') 0 = (1, 2)"
    using ex_found by (simp add: example_platform_def)
  have t: "GetTempSiblingPath long_path (GetTickCount (uptime_ms example_platform)) = None"
    using long_tmp by (simp add: example_platform_def)
  show ?thesis
    unfolding ProcessAndSave_def by (simp add: g long_load Let_def r t)
qed

text \<open>
  Claim C8 says that the exit code is 0 on success, on cancellation at either prompt and
  on an empty label, 1 when the path argument is missing, 2 when the path does not exist
  and 3 when compositing or persistence fails. For the source image at \<open>long_path\<close>, a
  path of 249 units to a file that exists and loads, with the label \<open>x\<close> and the answer
  Yes (overwrite), the temporary path needs 264 units; \<^verbatim>\<open>swprintf_s\<close> does not fit it into
  \<^verbatim>\<open>WCHAR tmp[MAX_PATH]\<close> (line 85), the process ends there, and \<open>wWinMain\<close> returns no
  exit code: persistence failed and the exit code is not 3. The file system is unchanged.
\<close>

theorem wWinMain_long_path:
  "length long_path = 249 \<and> length long_path < MAX_PATH
   \<and> long_fs long_path = Some [137, 80, 78, 71]
   \<and> wWinMain example_platform long_exists example_iswspace
        [L ''piclab.exe'', long_path] (PressOK (L ''x'')) IDYES long_fs = (None, long_fs)"
proof -
  have l: "length long_path = 249" by (simp add: long_path_def)
  have e: "long_exists long_path" by (simp add: long_exists_def long_fs_def)
  have w: "wWinMain example_platform long_exists example_iswspace
        [L ''piclab.exe'', long_path] (PressOK (L ''x'')) IDYES long_fs = (None, long_fs)"
    by (simp add: wWinMain_def Let_def c_str_long_path prompt_plain_x long_run
        IDYES_def IDCANCEL_def e)
  from l w show ?thesis by (simp add: MAX_PATH_def long_fs_def)
qed

section \<open>Rounding to nearest, ties to even\<close>

subsection \<open>Powers of two and the exponent\<close>

lemma pow2_pos [simp]: "0 < pow2 e"
  by (simp add: pow2_def)

lemma pow2_nonneg [simp]: "0 \<le> pow2 e"
  by (simp add: pow2_def)

lemma pow2_nonzero [simp]: "pow2 e \<noteq> 0"
  by (simp add: pow2_def)

lemma pow2_add: "pow2 (a + b) = pow2 a * pow2 b"
  by (simp add: pow2_def power_int_add)

lemma pow2_mono: "a \<le> b \<Longrightarrow> pow2 a \<le> pow2 b"
  by (simp add: pow2_def power_int_increasing)

lemma pow2_lessD: "pow2 a < pow2 b \<Longrightarrow> a < b"
  using pow2_mono [of b a] by (cases "a < b") auto

lemma pow2_nat: "pow2 (int n) = 2 ^ n"
  by (simp add: pow2_def)

lemma pow2_neg_nat: "pow2 (- int n) = 1 / 2 ^ n"
  by (simp add: pow2_def power_int_minus inverse_eq_divide)

lemma pow2_0 [simp]: "pow2 0 = 1"
  by (simp add: pow2_def)

lemma pow2_of_int: "0 \<le> e \<Longrightarrow> pow2 e = of_int (2 ^ nat e)"
  using pow2_nat [of "nat e"] by simp

lemma pow2_diff: "pow2 (a - b) = pow2 a / pow2 b"
proof -
  have "pow2 a = pow2 (a - b) * pow2 b" by (simp flip: pow2_add)
  then show ?thesis by simp
qed

lemma exponent_bounds:
  assumes "0 < x"
  shows "pow2 (exponent x) \<le> x" and "x < pow2 (exponent x + 1)"
proof -
  have both: "pow2 (exponent x) \<le> x \<and> x < pow2 (exponent x + 1)"
  proof (cases "1 \<le> x")
    case True
    let ?n = "\<lfloor>x\<rfloor>"
    have n: "0 < ?n" using True by simp
    have b1: "1 \<le> bitlen ?n" using n by (auto simp: bitlen_alt_def)
    note bb = bitlen_bounds [OF n]
    have e: "exponent x = bitlen ?n - 1" using True by (simp add: exponent_def)
    have "pow2 (exponent x) = of_int (2 ^ nat (bitlen ?n - 1))"
      using b1 by (simp add: e pow2_of_int)
    also have "\<dots> \<le> of_int ?n" using bb by (simp only: of_int_le_iff)
    also have "\<dots> \<le> x" by simp
    finally have lo: "pow2 (exponent x) \<le> x" .
    have "?n + 1 \<le> 2 ^ nat (bitlen ?n)" using bb by simp
    then have "(of_int (?n + 1) :: real) \<le> of_int (2 ^ nat (bitlen ?n))"
      by (simp only: of_int_le_iff)
    moreover have "x < of_int (?n + 1)" by linarith
    moreover have "pow2 (exponent x + 1) = of_int (2 ^ nat (bitlen ?n))"
      using b1 by (simp add: e pow2_of_int)
    ultimately have "x < pow2 (exponent x + 1)" by linarith
    with lo show ?thesis by simp
  next
    case False
    let ?y = "1 / x"
    let ?n = "\<lceil>?y\<rceil>"
    have y1: "1 < ?y" using False assms by simp
    have n2: "2 \<le> ?n" using y1 by linarith
    then have m: "0 < ?n - 1" by simp
    define b where "b = nat (bitlen (?n - 1))"
    have b1: "1 \<le> bitlen (?n - 1)" using m by (auto simp: bitlen_alt_def)
    then have bl: "bitlen (?n - 1) = int b" and bpos: "0 < b" by (simp_all add: b_def)
    note bb = bitlen_bounds [OF m]
    have e: "exponent x = - int b" using False by (simp add: exponent_def bl)
    have "?n \<le> 2 ^ b" using bb by (simp add: b_def)
    then have "(of_int ?n :: real) \<le> of_int (2 ^ b)" by (simp only: of_int_le_iff)
    moreover have "?y \<le> of_int ?n" by simp
    moreover have "(of_int (2 ^ b) :: real) = 2 ^ b" by simp
    ultimately have yle: "?y \<le> 2 ^ b" by linarith
    have "nat (bitlen (?n - 1) - 1) = b - 1" by (simp add: b_def nat_diff_distrib)
    then have "2 ^ (b - 1) \<le> ?n - 1" using bb by simp
    then have "(of_int (2 ^ (b - 1)) :: real) \<le> of_int (?n - 1)" by (simp only: of_int_le_iff)
    moreover have "of_int (?n - 1) < ?y" by linarith
    moreover have "(of_int (2 ^ (b - 1)) :: real) = 2 ^ (b - 1)" by simp
    ultimately have ylt: "2 ^ (b - 1) < ?y" by linarith
    have "1 / 2 ^ b \<le> x"
      using yle assms by (simp add: field_simps)
    then have lo: "pow2 (exponent x) \<le> x" by (simp add: e pow2_neg_nat)
    have hi': "x < 1 / 2 ^ (b - 1)"
      using ylt assms by (simp add: field_simps)
    have "exponent x + 1 = - int (b - 1)" using bpos by (simp add: e)
    then have "pow2 (exponent x + 1) = 1 / 2 ^ (b - 1)" by (simp only: pow2_neg_nat)
    with hi' have "x < pow2 (exponent x + 1)" by simp
    with lo show ?thesis by simp
  qed
  show "pow2 (exponent x) \<le> x" using both by simp
  show "x < pow2 (exponent x + 1)" using both by simp
qed

lemma exponent_unique:
  assumes "pow2 e \<le> x" and "x < pow2 (e + 1)"
  shows "exponent x = e"
proof -
  have pos: "0 < x" using assms(1) pow2_pos [of e] by linarith
  note b = exponent_bounds [OF pos]
  have "pow2 e < pow2 (exponent x + 1)" using assms(1) b(2) by linarith
  then have 1: "e < exponent x + 1" by (rule pow2_lessD)
  have "pow2 (exponent x) < pow2 (e + 1)" using assms(2) b(1) by linarith
  then have 2: "exponent x < e + 1" by (rule pow2_lessD)
  from 1 2 show ?thesis by simp
qed

subsection \<open>Rounding to an integer\<close>

lemma round_half_even_of_int [simp]: "round_half_even (of_int n) = n"
  by (simp add: round_half_even_def)

lemma round_half_even_power [simp]: "round_half_even (2 ^ n) = 2 ^ n"
  using round_half_even_of_int [of "2 ^ n"] by simp

lemma round_half_even_near:
  "\<bar>of_int (round_half_even r) - r\<bar> \<le> 1 / 2"
proof -
  have "of_int \<lfloor>r\<rfloor> \<le> r" "r < of_int \<lfloor>r\<rfloor> + 1" by linarith+
  then show ?thesis by (auto simp: round_half_even_def Let_def)
qed

lemma round_half_even_floor:
  "\<lfloor>r\<rfloor> \<le> round_half_even r" "round_half_even r \<le> \<lfloor>r\<rfloor> + 1"
  by (auto simp: round_half_even_def Let_def)

lemma round_half_even_mono:
  assumes "r \<le> s"
  shows "round_half_even r \<le> round_half_even s"
proof (cases "\<lfloor>r\<rfloor> = \<lfloor>s\<rfloor>")
  case True
  then show ?thesis using assms by (auto simp: round_half_even_def Let_def)
next
  case False
  have "\<lfloor>r\<rfloor> \<le> \<lfloor>s\<rfloor>" using assms by (rule floor_mono)
  with False have "\<lfloor>r\<rfloor> + 1 \<le> \<lfloor>s\<rfloor>" by simp
  with round_half_even_floor(2) [of r] round_half_even_floor(1) [of s] show ?thesis by linarith
qed

subsection \<open>Rounding to a precision\<close>

lemma round_to_pos:
  "0 < x \<Longrightarrow>
     round_to p x = of_int (round_half_even (x / pow2 (exponent x - int p + 1)))
                      * pow2 (exponent x - int p + 1)"
  by (simp add: round_to_def Let_def)

lemma round_to_0 [simp]: "round_to p 0 = 0"
  by (simp add: round_to_def)

lemma round_to_minus: "round_to p (- x) = - round_to p x"
  by (simp add: round_to_def Let_def sgn_minus)

lemma round_to_eval:
  assumes "pow2 e \<le> x" and "x < pow2 (e + 1)"
  shows "round_to p x = of_int (round_half_even (x / pow2 (e - int p + 1))) * pow2 (e - int p + 1)"
proof -
  have "0 < x" using assms(1) pow2_pos [of e] by linarith
  then show ?thesis using exponent_unique [OF assms] by (simp add: round_to_pos)
qed

lemma round_to_range:
  assumes "0 < x" and "0 < p"
  shows "pow2 (exponent x) \<le> round_to p x" and "round_to p x \<le> pow2 (exponent x + 1)"
proof -
  define e where "e = exponent x"
  define u where "u = pow2 (e - int p + 1)"
  have u: "0 < u" by (simp add: u_def)
  note b = exponent_bounds [OF assms(1), folded e_def]
  have r: "round_to p x = of_int (round_half_even (x / u)) * u"
    using assms(1) by (simp add: round_to_pos e_def u_def)
  have lo_eq: "pow2 e / u = of_int (2 ^ (p - 1))"
  proof -
    have "pow2 e / u = pow2 (e - (e - int p + 1))" by (simp only: pow2_diff u_def)
    also have "e - (e - int p + 1) = int (p - 1)" using assms(2) by simp
    finally show ?thesis by (simp add: pow2_nat)
  qed
  have hi_eq: "pow2 (e + 1) / u = of_int (2 ^ p)"
  proof -
    have "pow2 (e + 1) / u = pow2 (e + 1 - (e - int p + 1))" by (simp only: pow2_diff u_def)
    also have "e + 1 - (e - int p + 1) = int p" by simp
    finally show ?thesis by (simp add: pow2_nat)
  qed
  have "pow2 e / u \<le> x / u" using b(1) u by (simp add: divide_right_mono)
  then have "round_half_even (pow2 e / u) \<le> round_half_even (x / u)"
    by (rule round_half_even_mono)
  then have "(2 ^ (p - 1) :: int) \<le> round_half_even (x / u)"
    unfolding lo_eq by simp
  then have "(of_int (2 ^ (p - 1)) :: real) \<le> of_int (round_half_even (x / u))"
    by (simp only: of_int_le_iff)
  then have "of_int (2 ^ (p - 1)) * u \<le> of_int (round_half_even (x / u)) * u"
    using u by (simp add: mult_right_mono)
  moreover have "of_int (2 ^ (p - 1)) * u = pow2 e" using lo_eq u by (simp add: field_simps)
  ultimately show "pow2 (exponent x) \<le> round_to p x" by (simp add: r e_def)
  have "x / u \<le> pow2 (e + 1) / u" using b(2) u by (simp add: divide_right_mono)
  then have "round_half_even (x / u) \<le> round_half_even (pow2 (e + 1) / u)"
    by (rule round_half_even_mono)
  then have "round_half_even (x / u) \<le> (2 ^ p :: int)"
    unfolding hi_eq by simp
  then have "(of_int (round_half_even (x / u)) :: real) \<le> of_int (2 ^ p)"
    by (simp only: of_int_le_iff)
  then have "of_int (round_half_even (x / u)) * u \<le> of_int (2 ^ p) * u"
    using u by (simp add: mult_right_mono)
  moreover have "of_int (2 ^ p) * u = pow2 (e + 1)" using hi_eq u by (simp add: field_simps)
  ultimately show "round_to p x \<le> pow2 (exponent x + 1)" by (simp add: r e_def)
qed

lemma round_to_nonneg:
  assumes "0 \<le> x"
  shows "0 \<le> round_to p x"
proof (cases "x = 0")
  case True
  then show ?thesis by simp
next
  case False
  with assms have x: "0 < x" by simp
  define u where "u = pow2 (exponent x - int p + 1)"
  have "0 \<le> x / u" using x by (simp add: u_def)
  then have "0 \<le> \<lfloor>x / u\<rfloor>" by simp
  with round_half_even_floor(1) [of "x / u"] have "0 \<le> round_half_even (x / u)" by linarith
  then have "0 \<le> (of_int (round_half_even (x / u)) :: real)" by simp
  then have "0 \<le> of_int (round_half_even (x / u)) * u" by (simp add: u_def)
  then show ?thesis using x by (simp add: round_to_pos u_def)
qed

lemma round_to_error_pos:
  assumes "0 < x"
  shows "\<bar>round_to p x - x\<bar> \<le> pow2 (- int p) * x"
proof -
  define e where "e = exponent x"
  define u where "u = pow2 (e - int p + 1)"
  have u: "0 < u" by (simp add: u_def)
  note b = exponent_bounds [OF assms(1), folded e_def]
  have r: "round_to p x = of_int (round_half_even (x / u)) * u"
    using assms(1) by (simp add: round_to_pos e_def u_def)
  have "round_to p x - x = (of_int (round_half_even (x / u)) - x / u) * u"
    using u by (simp add: r left_diff_distrib)
  then have "\<bar>round_to p x - x\<bar> = \<bar>of_int (round_half_even (x / u)) - x / u\<bar> * u"
    using u by (simp add: abs_mult)
  also have "\<dots> \<le> (1 / 2) * u"
    using round_half_even_near [of "x / u"] u by (intro mult_right_mono) simp_all
  also have "(1 / 2) * u = pow2 (- int p) * pow2 e"
  proof -
    have "u = pow2 (- int p) * pow2 e * pow2 1" by (simp add: u_def flip: pow2_add)
    then show ?thesis by (simp add: pow2_def)
  qed
  also have "\<dots> \<le> pow2 (- int p) * x" using b(1) by (simp add: mult_left_mono)
  finally show ?thesis .
qed

lemma round_to_error: "\<bar>round_to p x - x\<bar> \<le> pow2 (- int p) * \<bar>x\<bar>"
proof (cases "0 < x")
  case True
  then show ?thesis using round_to_error_pos [of x p] by simp
next
  case False
  show ?thesis
  proof (cases "x = 0")
    case True
    then show ?thesis by simp
  next
    case F: False
    then have "0 < - x" using False by simp
    from round_to_error_pos [OF this, of p] show ?thesis
      using False by (simp add: round_to_minus)
  qed
qed

lemma round_to_mono_pos:
  assumes "0 < x" and "x \<le> y" and "0 < p"
  shows "round_to p x \<le> round_to p y"
proof -
  have y: "0 < y" using assms by simp
  note bx = exponent_bounds [OF assms(1)]
  note by' = exponent_bounds [OF y]
  have "pow2 (exponent x) < pow2 (exponent y + 1)" using bx(1) by'(2) assms(2) by linarith
  then have le: "exponent x \<le> exponent y" using pow2_lessD by fastforce
  show ?thesis
  proof (cases "exponent x = exponent y")
    case True
    define u where "u = pow2 (exponent y - int p + 1)"
    have u: "0 < u" by (simp add: u_def)
    have "x / u \<le> y / u" using assms(2) u by (simp add: divide_right_mono)
    then have "round_half_even (x / u) \<le> round_half_even (y / u)" by (rule round_half_even_mono)
    then have "(of_int (round_half_even (x / u)) :: real) \<le> of_int (round_half_even (y / u))"
      by (simp only: of_int_le_iff)
    then have "of_int (round_half_even (x / u)) * u \<le> of_int (round_half_even (y / u)) * u"
      using u by (simp add: mult_right_mono)
    then show ?thesis using assms(1) y True by (simp add: round_to_pos u_def)
  next
    case False
    with le have "exponent x + 1 \<le> exponent y" by simp
    then have "pow2 (exponent x + 1) \<le> pow2 (exponent y)" by (rule pow2_mono)
    with round_to_range(2) [OF assms(1,3)] round_to_range(1) [OF y assms(3)] show ?thesis
      by linarith
  qed
qed

lemma round_to_mono:
  assumes "x \<le> y" and "0 < p"
  shows "round_to p x \<le> round_to p y"
proof -
  consider "0 < x" | "x \<le> 0" "0 \<le> y" | "y < 0" by linarith
  then show ?thesis
  proof cases
    case 1
    then show ?thesis using assms by (rule round_to_mono_pos)
  next
    case 2
    have "round_to p x \<le> 0" using round_to_nonneg [of "- x" p] 2(1) by (simp add: round_to_minus)
    moreover have "0 \<le> round_to p y" using 2(2) by (rule round_to_nonneg)
    ultimately show ?thesis by linarith
  next
    case 3
    then have "0 < - y" "- y \<le> - x" using assms(1) by simp_all
    from round_to_mono_pos [OF this assms(2)] show ?thesis by (simp add: round_to_minus)
  qed
qed

lemma round_to_idem_pos:
  assumes "0 < x" and "0 < p"
  shows "round_to p (round_to p x) = round_to p x"
proof -
  define e where "e = exponent x"
  define u where "u = pow2 (e - int p + 1)"
  define m where "m = round_half_even (x / u)"
  have u: "0 < u" by (simp add: u_def)
  have r: "round_to p x = of_int m * u"
    using assms(1) by (simp add: round_to_pos e_def u_def m_def)
  note rg = round_to_range [OF assms, folded e_def]
  show ?thesis
  proof (cases "round_to p x < pow2 (e + 1)")
    case True
    have "round_to p (round_to p x)
            = of_int (round_half_even (round_to p x / pow2 (e - int p + 1))) * pow2 (e - int p + 1)"
      using rg(1) True by (rule round_to_eval)
    also have "round_to p x / pow2 (e - int p + 1) = of_int m" using u by (simp add: r u_def)
    finally show ?thesis by (simp add: r u_def)
  next
    case False
    with rg(2) have eq: "round_to p x = pow2 (e + 1)" by simp
    have "round_to p (pow2 (e + 1))
            = of_int (round_half_even (pow2 (e + 1) / pow2 (e + 1 - int p + 1))) * pow2 (e + 1 - int p + 1)"
    proof (rule round_to_eval)
      show "pow2 (e + 1) \<le> pow2 (e + 1)" by simp
      show "pow2 (e + 1) < pow2 (e + 1 + 1)"
        using pow2_add [of "e + 1" 1] pow2_pos [of "e + 1"] by (simp add: pow2_def)
    qed
    also have "pow2 (e + 1) / pow2 (e + 1 - int p + 1) = pow2 (int (p - 1))"
      using assms(2) by (simp flip: pow2_diff)
    also have "\<dots> = of_int (2 ^ (p - 1))" by (simp add: pow2_nat)
    finally have "round_to p (pow2 (e + 1)) = pow2 (int (p - 1)) * pow2 (e + 1 - int p + 1)"
      by (simp add: pow2_nat)
    also have "\<dots> = pow2 (int (p - 1) + (e + 1 - int p + 1))" by (simp only: pow2_add)
    also have "int (p - 1) + (e + 1 - int p + 1) = e + 1" using assms(2) by simp
    finally show ?thesis by (simp add: eq)
  qed
qed

lemma round_to_idem:
  assumes "0 < p"
  shows "round_to p (round_to p x) = round_to p x"
proof -
  consider "0 < x" | "x = 0" | "x < 0" by linarith
  then show ?thesis
  proof cases
    case 1
    then show ?thesis using assms by (rule round_to_idem_pos)
  next
    case 2
    then show ?thesis by simp
  next
    case 3
    then have "0 < - x" by simp
    from round_to_idem_pos [OF this assms] show ?thesis by (simp add: round_to_minus)
  qed
qed

lemma round_to_of_int:
  assumes "\<bar>m\<bar> < 2 ^ p"
  shows "round_to p (of_int m) = of_int m"
proof -
  have pos: "round_to p (of_int k) = of_int k" if k: "0 < k" "k < 2 ^ p" for k :: int
  proof -
    have kx: "0 < (of_int k :: real)" using k by simp
    define e where "e = exponent (of_int k)"
    note b = exponent_bounds [OF kx, folded e_def]
    have "(of_int k :: real) < of_int (2 ^ p)" using k(2) by (simp only: of_int_less_iff)
    moreover have "(of_int (2 ^ p) :: real) = pow2 (int p)" by (simp add: pow2_nat)
    ultimately have "pow2 e < pow2 (int p)" using b(1) by linarith
    then have "e < int p" by (rule pow2_lessD)
    define n where "n = nat (int p - 1 - e)"
    have n: "e - int p + 1 = - int n" using \<open>e < int p\<close> by (simp add: n_def)
    have "of_int k / pow2 (e - int p + 1) = of_int (k * 2 ^ n)"
      by (simp add: n pow2_neg_nat)
    then have "round_to p (of_int k) = of_int (k * 2 ^ n) * pow2 (e - int p + 1)"
      using kx by (simp add: round_to_pos e_def del: of_int_mult)
    also have "\<dots> = of_int k" by (simp add: n pow2_neg_nat)
    finally show ?thesis .
  qed
  consider "0 < m" | "m = 0" | "m < 0" by linarith
  then show ?thesis
  proof cases
    case 1
    then show ?thesis using assms by (intro pos) simp_all
  next
    case 2
    then show ?thesis by simp
  next
    case 3
    then have "round_to p (of_int (- m)) = of_int (- m)" using assms by (intro pos) simp_all
    then show ?thesis by (simp add: round_to_minus)
  qed
qed

subsection \<open>The values the examples need\<close>

lemma double_015: "round_to 53 0.15 = 5404319552844595 / 2 ^ 55"
  by (subst round_to_eval [where e = "-3"])
     (simp_all add: pow2_def round_half_even_def Let_def)

lemma double_015_times_120: "round_to 53 (120 * (5404319552844595 / 2 ^ 55)) = 18"
  by (subst round_to_eval [where e = 4])
     (simp_all add: pow2_def round_half_even_def Let_def)

lemma double_015_times_100: "round_to 53 (100 * (5404319552844595 / 2 ^ 55)) = 15"
  by (subst round_to_eval [where e = 3])
     (simp_all add: pow2_def round_half_even_def Let_def)

lemma double_015_times_123: "round_to 53 (123 * (5404319552844595 / 2 ^ 55)) = 5193213320311603 / 2 ^ 48"
  by (subst round_to_eval [where e = 4])
     (simp_all add: pow2_def round_half_even_def Let_def)

lemma single_1845: "round_to 24 (5193213320311603 / 2 ^ 48) = 9673114 / 2 ^ 19"
  by (subst round_to_eval [where e = 4])
     (simp_all add: pow2_def round_half_even_def Let_def)

lemma double_0042: "round_to 53 0.042 = 6052837899185947 / 2 ^ 57"
  by (subst round_to_eval [where e = "-5"])
     (simp_all add: pow2_def round_half_even_def Let_def)

lemma double_0042_times_600: "round_to 53 (600 * (6052837899185947 / 2 ^ 57)) = 7093169413108532 / 2 ^ 48"
  by (subst round_to_eval [where e = 4])
     (simp_all add: pow2_def round_half_even_def Let_def)

lemma single_252: "round_to 24 (7093169413108532 / 2 ^ 48) = 13212058 / 2 ^ 19"
  by (subst round_to_eval [where e = 4])
     (simp_all add: pow2_def round_half_even_def Let_def)

section \<open>Label geometry\<close>

subsection \<open>Any monotone rounding\<close>

lemma UINT_to_double_nonneg: "0 \<le> UINT_to_double h"
  unfolding UINT_to_double_def by (rule of_nat_0_le_iff)

lemma UINT_to_double_less_iff: "UINT_to_double h < real n \<longleftrightarrow> unat h < n"
  unfolding UINT_to_double_def by (rule of_nat_less_iff)

lemma UINT_to_double_le_iff: "real n \<le> UINT_to_double h \<longleftrightarrow> n \<le> unat h"
  unfolding UINT_to_double_def by (rule of_nat_le_iff)

lemma UINT_to_double_numerals:
  "UINT_to_double 100 = 100" "UINT_to_double 123 = 123" "UINT_to_double 600 = 600"
  by (simp_all add: UINT_to_double_def)

lemma scrim_bounds_ordered:
  assumes "\<forall>x y. x \<le> y \<longrightarrow> to_double ar x \<le> to_double ar y"
  shows "to_double ar (UINT_to_double h * to_double ar 0.05) \<le> scrim_upper ar h"
proof -
  have "to_double ar 0.05 \<le> to_double ar 0.15" using assms by simp
  moreover have "0 \<le> UINT_to_double h" by (rule UINT_to_double_nonneg)
  ultimately have "UINT_to_double h * to_double ar 0.05 \<le> UINT_to_double h * to_double ar 0.15"
    by (rule mult_left_mono)
  then show ?thesis using assms by (simp add: scrim_upper_def)
qed

lemma upper_clamp_wins:
  assumes mR: "\<forall>x y. x \<le> y \<longrightarrow> to_REAL ar x \<le> to_REAL ar y"
    and mD: "\<forall>x y. x \<le> y \<longrightarrow> to_double ar x \<le> to_double ar y"
    and r18: "to_REAL ar 18 = 18"
    and lt: "scrim_upper ar h < scrim_lower ar h"
  shows "scrimH ar h bh = to_REAL ar (scrim_upper ar h)"
proof -
  let ?s0 = "to_REAL ar (bh + to_REAL ar (2 * pad ar h))"
  let ?s1 = "to_REAL ar (max ?s0 (scrim_lower ar h))"
  have lo: "scrim_lower ar h = 18 \<and> scrim_upper ar h < 18"
    using scrim_bounds_ordered [OF mD, of h] lt by (auto simp: scrim_lower_def max_def split: if_splits)
  have "to_REAL ar 18 \<le> ?s1" using mR lo by simp
  then have "scrim_upper ar h < ?s1" using r18 lo by simp
  then have "min ?s1 (scrim_upper ar h) = scrim_upper ar h" by simp
  then show ?thesis by (simp add: scrimH_def Let_def)
qed

lemma scrimH_between:
  assumes mR: "\<forall>x y. x \<le> y \<longrightarrow> to_REAL ar x \<le> to_REAL ar y"
    and idem: "\<forall>x. to_REAL ar (to_REAL ar x) = to_REAL ar x"
    and le: "scrim_lower ar h \<le> scrim_upper ar h"
  shows "to_REAL ar (scrim_lower ar h) \<le> scrimH ar h bh"
    and "scrimH ar h bh \<le> to_REAL ar (scrim_upper ar h)"
proof -
  let ?s0 = "to_REAL ar (bh + to_REAL ar (2 * pad ar h))"
  let ?s1 = "to_REAL ar (max ?s0 (scrim_lower ar h))"
  have s: "scrimH ar h bh = to_REAL ar (min ?s1 (scrim_upper ar h))"
    by (simp add: scrimH_def Let_def)
  show "scrimH ar h bh \<le> to_REAL ar (scrim_upper ar h)"
    unfolding s using mR by simp
  have l1: "to_REAL ar (scrim_lower ar h) \<le> ?s1" using mR by simp
  show "to_REAL ar (scrim_lower ar h) \<le> scrimH ar h bh"
  proof (cases "?s1 \<le> scrim_upper ar h")
    case True
    then have "scrimH ar h bh = to_REAL ar ?s1" unfolding s by (simp add: min_def)
    also have "\<dots> = ?s1" using idem by simp
    finally show ?thesis using l1 by simp
  next
    case False
    then have "scrimH ar h bh = to_REAL ar (scrim_upper ar h)" unfolding s by (simp add: min_def)
    then show ?thesis using mR le by simp
  qed
qed

lemma scrimH_clamp:
  assumes mR: "\<forall>x y. x \<le> y \<longrightarrow> to_REAL ar x \<le> to_REAL ar y"
    and idem: "\<forall>x. to_REAL ar (to_REAL ar x) = to_REAL ar x"
  shows "scrimH ar h bh
           = to_REAL ar (min (max (to_REAL ar (bh + to_REAL ar (2 * pad ar h))) (scrim_lower ar h))
                             (scrim_upper ar h))"
proof -
  define s0 where "s0 = to_REAL ar (bh + to_REAL ar (2 * pad ar h))"
  define lo where "lo = scrim_lower ar h"
  define hi where "hi = scrim_upper ar h"
  have fs0: "to_REAL ar s0 = s0" using idem by (simp add: s0_def)
  have s: "scrimH ar h bh = to_REAL ar (min (to_REAL ar (max s0 lo)) hi)"
    by (simp add: scrimH_def Let_def s0_def lo_def hi_def)
  have "to_REAL ar (min (to_REAL ar (max s0 lo)) hi) = to_REAL ar (min (max s0 lo) hi)"
  proof (cases "lo \<le> s0")
    case True
    then show ?thesis by (simp add: max_def fs0)
  next
    case False
    then have m: "max s0 lo = lo" by simp
    show ?thesis
    proof (cases "to_REAL ar lo \<le> hi")
      case True
      show ?thesis
      proof (cases "lo \<le> hi")
        case T: True
        with True show ?thesis using idem by (simp add: m min_def)
      next
        case F: False
        then have "hi \<le> lo" by simp
        then have "to_REAL ar hi \<le> to_REAL ar lo" using mR by simp
        moreover have "to_REAL ar (to_REAL ar lo) \<le> to_REAL ar hi" using mR True by blast
        ultimately have "to_REAL ar lo = to_REAL ar hi" using idem by simp
        with True F show ?thesis using idem by (simp add: m min_def)
      qed
    next
      case False
      then have a: "min (to_REAL ar lo) hi = hi" by simp
      show ?thesis
      proof (cases "lo \<le> hi")
        case True
        then have "to_REAL ar lo \<le> to_REAL ar hi" using mR by simp
        moreover have "to_REAL ar hi \<le> to_REAL ar (to_REAL ar lo)" using mR False
          by (meson less_imp_le not_le)
        ultimately have eq: "to_REAL ar lo = to_REAL ar hi" using idem by simp
        have "to_REAL ar (min lo hi) = to_REAL ar lo" using True by (simp add: min_def)
        then show ?thesis unfolding m a using eq by simp
      next
        case F: False
        then have "to_REAL ar (min lo hi) = to_REAL ar hi" by (simp add: min_def)
        then show ?thesis unfolding m a by simp
      qed
    qed
  qed
  then show ?thesis unfolding s by (simp add: s0_def lo_def hi_def)
qed

lemma scrimH_at_upper:
  assumes mR: "\<forall>x y. x \<le> y \<longrightarrow> to_REAL ar x \<le> to_REAL ar y"
    and idem: "\<forall>x. to_REAL ar (to_REAL ar x) = to_REAL ar x"
    and reach: "scrim_upper ar h \<le> to_REAL ar (bh + to_REAL ar (2 * pad ar h))"
  shows "scrimH ar h bh = to_REAL ar (scrim_upper ar h)"
proof -
  have "min (max (to_REAL ar (bh + to_REAL ar (2 * pad ar h))) (scrim_lower ar h)) (scrim_upper ar h)
          = scrim_upper ar h"
    using reach by simp
  then show ?thesis using scrimH_clamp [OF mR idem, of h bh] by simp
qed

subsection \<open>The program's rounding\<close>

lemma ieee_simps [simp]: "to_REAL ieee = round_to 24" "to_double ieee = round_to 53"
  by (simp_all add: ieee_def)

lemma ieee_mono:
  "\<forall>x y. x \<le> y \<longrightarrow> to_REAL ieee x \<le> to_REAL ieee y"
  "\<forall>x y. x \<le> y \<longrightarrow> to_double ieee x \<le> to_double ieee y"
  by (simp_all add: round_to_mono)

lemma ieee_idem: "\<forall>x. to_REAL ieee (to_REAL ieee x) = to_REAL ieee x"
  by (simp add: round_to_idem)

lemma single_of_int: "\<bar>m\<bar> < 2 ^ 24 \<Longrightarrow> round_to 24 (of_int m) = of_int m"
  by (rule round_to_of_int)

lemma single_numerals:
  "round_to 24 8 = 8" "round_to 24 15 = 15" "round_to 24 18 = 18" "round_to 24 40 = 40"
  using single_of_int [of 8] single_of_int [of 15] single_of_int [of 18] single_of_int [of 40]
  by simp_all

lemma double_product_error:
  assumes "0 < c" and "0 \<le> H"
  shows "\<bar>round_to 53 (H * round_to 53 c) - c * H\<bar> \<le> pow2 (- 51) * (c * H)"
proof -
  define eps where "eps = pow2 (- int 53)"
  define c' where "c' = round_to 53 c"
  have eps: "0 \<le> eps" by (simp add: eps_def)
  have e1: "\<bar>c' - c\<bar> \<le> eps * c"
    using round_to_error [of 53 c] assms(1) by (simp add: eps_def c'_def)
  have c'pos: "0 \<le> c'" using assms(1) by (simp add: c'_def round_to_nonneg)
  have x: "0 \<le> H * c'" using assms(2) c'pos by simp
  have e2: "\<bar>round_to 53 (H * c') - H * c'\<bar> \<le> eps * (H * c')"
    using round_to_error [of 53 "H * c'"] x by (simp add: eps_def)
  have "H * c' - c * H = H * (c' - c)" by (simp add: algebra_simps)
  then have "\<bar>H * c' - c * H\<bar> = H * \<bar>c' - c\<bar>"
    using assms(2) by (simp add: abs_mult)
  also have "\<dots> \<le> H * (eps * c)" using e1 assms(2) by (rule mult_left_mono)
  finally have e3: "\<bar>H * c' - c * H\<bar> \<le> eps * (c * H)" by (simp add: mult_ac)
  then have "H * c' \<le> c * H + eps * (c * H)" by linarith
  then have "eps * (H * c') \<le> eps * (c * H + eps * (c * H))" using eps by (rule mult_left_mono)
  with e2 e3 have "\<bar>round_to 53 (H * c') - c * H\<bar> \<le> eps * (c * H + eps * (c * H)) + eps * (c * H)"
    by linarith
  also have "\<dots> = (2 * eps + eps * eps) * (c * H)" by (simp add: algebra_simps)
  also have "\<dots> \<le> pow2 (- 51) * (c * H)"
  proof (rule mult_right_mono)
    show "2 * eps + eps * eps \<le> pow2 (- 51)" by (simp add: eps_def pow2_def)
    show "0 \<le> c * H" using assms by simp
  qed
  finally show ?thesis by (simp add: c'_def)
qed

lemma max_error:
  fixes d a k delta :: real
  assumes "\<bar>d - a\<bar> \<le> delta * a" and "0 \<le> delta"
  shows "\<bar>max k d - max k a\<bar> \<le> delta * max k a"
proof -
  have "\<bar>max k d - max k a\<bar> \<le> \<bar>d - a\<bar>" unfolding max_def by (auto simp: abs_if)
  also have "\<dots> \<le> delta * a" by (rule assms(1))
  also have "\<dots> \<le> delta * max k a" using assms(2) by (simp add: mult_left_mono)
  finally show ?thesis .
qed

lemma single_after_double_error:
  assumes "0 \<le> m" and "\<bar>y - m\<bar> \<le> pow2 (- 51) * m"
  shows "\<bar>round_to 24 y - m\<bar> \<le> pow2 (- 23) * m"
proof -
  define eps where "eps = pow2 (- int 24)"
  define del where "del = pow2 (- 51)"
  have eps: "0 \<le> eps" by (simp add: eps_def)
  have "\<bar>y\<bar> \<le> m + del * m" using assms unfolding del_def by linarith
  then have "eps * \<bar>y\<bar> \<le> eps * (m + del * m)" using eps by (rule mult_left_mono)
  moreover have "\<bar>round_to 24 y - y\<bar> \<le> eps * \<bar>y\<bar>"
    using round_to_error [of 24 y] by (simp add: eps_def)
  ultimately have "\<bar>round_to 24 y - m\<bar> \<le> eps * (m + del * m) + del * m"
    using assms(2) unfolding del_def by linarith
  also have "\<dots> = (eps + eps * del + del) * m" by (simp add: algebra_simps)
  also have "\<dots> \<le> pow2 (- 23) * m"
  proof (rule mult_right_mono)
    show "eps + eps * del + del \<le> pow2 (- 23)" by (simp add: eps_def del_def pow2_def)
    show "0 \<le> m" by (rule assms(1))
  qed
  finally show ?thesis .
qed

lemma single_error_nonneg:
  assumes "0 \<le> m" and "\<bar>y - m\<bar> \<le> pow2 (- 51) * m"
  shows "(1 - pow2 (- 23)) * m \<le> round_to 24 y" and "round_to 24 y \<le> (1 + pow2 (- 23)) * m"
proof -
  have a: "\<bar>round_to 24 y - m\<bar> \<le> pow2 (- 23) * m"
    using assms by (rule single_after_double_error)
  show "(1 - pow2 (- 23)) * m \<le> round_to 24 y"
    using a unfolding abs_le_iff by (simp add: algebra_simps)
  show "round_to 24 y \<le> (1 + pow2 (- 23)) * m"
    using a unfolding abs_le_iff by (simp add: algebra_simps)
qed

lemma pad_error: "\<bar>pad ieee h - max 8 (0.012 * UINT_to_double h)\<bar> \<le> pow2 (- 23) * max 8 (0.012 * UINT_to_double h)"
proof -
  have "\<bar>round_to 53 (UINT_to_double h * round_to 53 0.012) - 0.012 * UINT_to_double h\<bar>
          \<le> pow2 (- 51) * (0.012 * UINT_to_double h)"
    by (rule double_product_error) (simp_all add: UINT_to_double_nonneg)
  then have "\<bar>max 8 (round_to 53 (UINT_to_double h * round_to 53 0.012)) - max 8 (0.012 * UINT_to_double h)\<bar>
          \<le> pow2 (- 51) * max 8 (0.012 * UINT_to_double h)"
    by (rule max_error) simp
  then show ?thesis unfolding pad_def ieee_simps by (intro single_after_double_error) simp_all
qed

lemma fontPt_error: "\<bar>fontPt ieee h - max 10 (0.042 * UINT_to_double h)\<bar> \<le> pow2 (- 23) * max 10 (0.042 * UINT_to_double h)"
proof -
  have "\<bar>round_to 53 (UINT_to_double h * round_to 53 0.042) - 0.042 * UINT_to_double h\<bar>
          \<le> pow2 (- 51) * (0.042 * UINT_to_double h)"
    by (rule double_product_error) (simp_all add: UINT_to_double_nonneg)
  then have "\<bar>max 10 (round_to 53 (UINT_to_double h * round_to 53 0.042)) - max 10 (0.042 * UINT_to_double h)\<bar>
          \<le> pow2 (- 51) * max 10 (0.042 * UINT_to_double h)"
    by (rule max_error) simp
  then show ?thesis unfolding fontPt_def ieee_simps by (intro single_after_double_error) simp_all
qed

lemma scrim_lower_error:
  "\<bar>scrim_lower ieee h - max 18 (0.05 * UINT_to_double h)\<bar> \<le> pow2 (- 51) * max 18 (0.05 * UINT_to_double h)"
proof -
  have "\<bar>round_to 53 (UINT_to_double h * round_to 53 0.05) - 0.05 * UINT_to_double h\<bar>
          \<le> pow2 (- 51) * (0.05 * UINT_to_double h)"
    by (rule double_product_error) (simp_all add: UINT_to_double_nonneg)
  then have "\<bar>max 18 (round_to 53 (UINT_to_double h * round_to 53 0.05)) - max 18 (0.05 * UINT_to_double h)\<bar>
          \<le> pow2 (- 51) * max 18 (0.05 * UINT_to_double h)"
    by (rule max_error) simp
  then show ?thesis by (simp add: scrim_lower_def max.commute)
qed

lemma scrim_upper_error:
  "\<bar>scrim_upper ieee h - 0.15 * UINT_to_double h\<bar> \<le> pow2 (- 51) * (0.15 * UINT_to_double h)"
  unfolding scrim_upper_def ieee_simps
  by (rule double_product_error) (simp_all add: UINT_to_double_nonneg)

lemma scrim_upper_120: "scrim_upper ieee 120 = 18"
proof -
  have "UINT_to_double 120 = 120" by (simp add: UINT_to_double_def)
  then show ?thesis
    unfolding scrim_upper_def ieee_simps double_015 by (simp only: double_015_times_120)
qed

lemma scrim_upper_mono: "unat h \<le> unat h' \<Longrightarrow> scrim_upper ieee h \<le> scrim_upper ieee h'"
proof -
  assume "unat h \<le> unat h'"
  then have "UINT_to_double h \<le> UINT_to_double h'" by (simp only: UINT_to_double_def of_nat_le_iff)
  moreover have "0 \<le> round_to 53 0.15" by (simp add: round_to_nonneg)
  ultimately have "UINT_to_double h * round_to 53 0.15 \<le> UINT_to_double h' * round_to 53 0.15"
    by (rule mult_right_mono)
  then show ?thesis by (simp add: scrim_upper_def round_to_mono)
qed

lemma ieee_bounds_ordered_iff: "scrim_lower ieee h \<le> scrim_upper ieee h \<longleftrightarrow> 120 \<le> unat h"
proof
  assume le: "scrim_lower ieee h \<le> scrim_upper ieee h"
  show "120 \<le> unat h"
  proof (rule ccontr)
    assume "\<not> 120 \<le> unat h"
    have "unat h \<le> 119" using \<open>\<not> 120 \<le> unat h\<close> by simp
    then have "UINT_to_double h \<le> real 119"
      unfolding UINT_to_double_def by (simp only: of_nat_le_iff)
    then have H: "UINT_to_double h \<le> 119" by simp
    have "scrim_upper ieee h \<le> 0.15 * UINT_to_double h + pow2 (- 51) * (0.15 * UINT_to_double h)"
      using scrim_upper_error [of h] by linarith
    also have "\<dots> = (0.15 + pow2 (- 51) * 0.15) * UINT_to_double h" by (simp add: algebra_simps)
    also have "\<dots> \<le> (0.15 + pow2 (- 51) * 0.15) * 119"
      using H by (intro mult_left_mono) simp_all
    also have "\<dots> < 18" by (simp add: pow2_def)
    finally have "scrim_upper ieee h < 18" .
    moreover have "18 \<le> scrim_lower ieee h" by (simp add: scrim_lower_def)
    ultimately show False using le by linarith
  qed
next
  assume "120 \<le> unat h"
  then have "unat (120 :: 32 word) \<le> unat h" by simp
  then have "scrim_upper ieee 120 \<le> scrim_upper ieee h" by (rule scrim_upper_mono)
  then have "18 \<le> scrim_upper ieee h" by (simp add: scrim_upper_120)
  moreover have "round_to 53 (UINT_to_double h * round_to 53 0.05) \<le> scrim_upper ieee h"
    using scrim_bounds_ordered [OF ieee_mono(2), of h] by simp
  ultimately show "scrim_lower ieee h \<le> scrim_upper ieee h" by (simp add: scrim_lower_def)
qed

lemma scrim_upper_100: "scrim_upper ieee 100 = 15"
proof -
  have "UINT_to_double 100 = 100" by (simp add: UINT_to_double_def)
  then show ?thesis
    unfolding scrim_upper_def ieee_simps double_015 by (simp only: double_015_times_100)
qed

lemma scrim_upper_123: "scrim_upper ieee 123 = 5193213320311603 / 2 ^ 48"
proof -
  have "UINT_to_double 123 = 123" by (simp add: UINT_to_double_def)
  then show ?thesis
    unfolding scrim_upper_def ieee_simps double_015 by (simp only: double_015_times_123)
qed

lemma scrimH_100: "scrimH ieee 100 bh = 15"
proof -
  have "scrim_upper ieee 100 < scrim_lower ieee 100"
    by (simp add: scrim_upper_100 scrim_lower_def)
  then have "scrimH ieee 100 bh = to_REAL ieee (scrim_upper ieee 100)"
    using ieee_mono by (intro upper_clamp_wins) (simp_all add: single_numerals)
  then show ?thesis by (simp add: scrim_upper_100 single_numerals)
qed

lemma scrimH_123: "scrimH ieee 123 40 = 9673114 / 2 ^ 19"
proof -
  have "0 \<le> round_to 24 (2 * pad ieee 123)"
    by (intro round_to_nonneg) (simp add: pad_def round_to_nonneg)
  then have "round_to 24 40 \<le> round_to 24 (40 + round_to 24 (2 * pad ieee 123))"
    by (intro round_to_mono) simp_all
  then have "scrim_upper ieee 123 \<le> to_REAL ieee (40 + to_REAL ieee (2 * pad ieee 123))"
    by (simp add: single_numerals scrim_upper_123)
  then have "scrimH ieee 123 40 = to_REAL ieee (scrim_upper ieee 123)"
    by (rule scrimH_at_upper [OF ieee_mono(1) ieee_idem])
  then show ?thesis unfolding scrim_upper_123 ieee_simps by (simp only: single_1845)
qed

lemma fontPt_600: "fontPt ieee 600 = 13212058 / 2 ^ 19"
proof -
  have u: "UINT_to_double 600 = 600" by (simp add: UINT_to_double_def)
  have m: "max 10 (7093169413108532 / 2 ^ 48) = (7093169413108532 / 2 ^ 48 :: real)" by simp
  show ?thesis
    unfolding fontPt_def ieee_simps u double_0042 double_0042_times_600 m
    by (rule single_252)
qed

lemma clamp_case_agrees:
  "scrim_upper ieee h < scrim_lower ieee h
     \<longleftrightarrow> 0.15 * UINT_to_double h < max 18 (0.05 * UINT_to_double h)"
proof -
  have a: "scrim_upper ieee h < scrim_lower ieee h \<longleftrightarrow> unat h < 120"
    using ieee_bounds_ordered_iff [of h] by auto
  have "UINT_to_double h < real 120 \<longleftrightarrow> unat h < 120" by (rule UINT_to_double_less_iff)
  then have b: "unat h < 120 \<longleftrightarrow> UINT_to_double h < 120" by simp
  have "0 \<le> UINT_to_double h" by (rule UINT_to_double_nonneg)
  then have c: "0.15 * UINT_to_double h < max 18 (0.05 * UINT_to_double h)
                 \<longleftrightarrow> UINT_to_double h < 120"
    unfolding max_def by (auto split: if_splits)
  show ?thesis unfolding a b c ..
qed

subsection \<open>The formulas\<close>

text \<open>
  Claim C4 says that the padding is \<open>max(8, 0.012 H)\<close>, the font size \<open>max(10, 0.042 H)\<close>
  and the scrim height the clamp of the text height plus twice the padding to
  \<open>max(18, 0.05 H)\<close> and \<open>0.15 H\<close>. The program computes the products in \<^verbatim>\<open>double\<close> from the
  \<^verbatim>\<open>double\<close> nearest to each constant and stores the results as \<^verbatim>\<open>REAL\<close>. For an image
  600 pixels high the font size is \<open>13212058 / 2^19 = 25.200000762939453125\<close>, not
  \<open>0.042 * 600 = 25.2\<close>.
\<close>

theorem fontPt_differs_from_formula:
  "fontPt ieee 600 = 13212058 / 2 ^ 19
   \<and> fontPt ieee 600 \<noteq> max 10 (0.042 * UINT_to_double 600)"
  by (simp add: fontPt_600 UINT_to_double_numerals)

text \<open>
  Claim C4, amended. In the program's arithmetic the padding differs from
  \<open>max(8, 0.012 H)\<close> and the font size from \<open>max(10, 0.042 H)\<close> by at most the fraction
  \<open>2^-23\<close> of that value; the lower bound the program computes differs from
  \<open>max(18, 0.05 H)\<close> and the upper bound from \<open>0.15 H\<close> by at most the fraction \<open>2^-51\<close>. The
  scrim height is the \<^verbatim>\<open>REAL\<close> nearest to the clamp of the text height plus twice the
  padding (each sum and product rounded to \<^verbatim>\<open>REAL\<close>) to the computed lower and upper
  bounds. The computed lower bound exceeds the computed upper bound exactly when
  \<open>max(18, 0.05 H)\<close> exceeds \<open>0.15 H\<close>. The upper bound is applied last and wins: in that
  case the scrim height is the computed upper bound, rounded to \<^verbatim>\<open>REAL\<close>.
\<close>

theorem label_geometry_rounded:
  "\<bar>pad ieee h - max 8 (0.012 * UINT_to_double h)\<bar> \<le> pow2 (- 23) * max 8 (0.012 * UINT_to_double h)
   \<and> \<bar>fontPt ieee h - max 10 (0.042 * UINT_to_double h)\<bar>
        \<le> pow2 (- 23) * max 10 (0.042 * UINT_to_double h)
   \<and> \<bar>scrim_lower ieee h - max 18 (0.05 * UINT_to_double h)\<bar>
        \<le> pow2 (- 51) * max 18 (0.05 * UINT_to_double h)
   \<and> \<bar>scrim_upper ieee h - 0.15 * UINT_to_double h\<bar> \<le> pow2 (- 51) * (0.15 * UINT_to_double h)
   \<and> scrimH ieee h bh
       = to_REAL ieee (min (max (to_REAL ieee (bh + to_REAL ieee (2 * pad ieee h))) (scrim_lower ieee h))
                           (scrim_upper ieee h))
   \<and> (scrim_upper ieee h < scrim_lower ieee h
        \<longleftrightarrow> 0.15 * UINT_to_double h < max 18 (0.05 * UINT_to_double h))
   \<and> (scrim_upper ieee h < scrim_lower ieee h
        \<longrightarrow> scrimH ieee h bh = to_REAL ieee (scrim_upper ieee h))"
proof (intro conjI impI)
  show "\<bar>pad ieee h - max 8 (0.012 * UINT_to_double h)\<bar> \<le> pow2 (- 23) * max 8 (0.012 * UINT_to_double h)"
    by (rule pad_error)
  show "\<bar>fontPt ieee h - max 10 (0.042 * UINT_to_double h)\<bar>
        \<le> pow2 (- 23) * max 10 (0.042 * UINT_to_double h)"
    by (rule fontPt_error)
  show "\<bar>scrim_lower ieee h - max 18 (0.05 * UINT_to_double h)\<bar>
        \<le> pow2 (- 51) * max 18 (0.05 * UINT_to_double h)"
    by (rule scrim_lower_error)
  show "\<bar>scrim_upper ieee h - 0.15 * UINT_to_double h\<bar> \<le> pow2 (- 51) * (0.15 * UINT_to_double h)"
    by (rule scrim_upper_error)
  show "scrimH ieee h bh
       = to_REAL ieee (min (max (to_REAL ieee (bh + to_REAL ieee (2 * pad ieee h))) (scrim_lower ieee h))
                           (scrim_upper ieee h))"
    using ieee_mono(1) ieee_idem by (rule scrimH_clamp)
  show "scrim_upper ieee h < scrim_lower ieee h
        \<longleftrightarrow> 0.15 * UINT_to_double h < max 18 (0.05 * UINT_to_double h)"
    by (rule clamp_case_agrees)
next
  assume "scrim_upper ieee h < scrim_lower ieee h"
  then show "scrimH ieee h bh = to_REAL ieee (scrim_upper ieee h)"
    using ieee_mono by (intro upper_clamp_wins) (simp_all add: single_numerals)
qed

theorem label_geometry_rounded_witness:
  "scrim_upper ieee 100 < scrim_lower ieee 100 \<and> scrimH ieee 100 40 = 15"
proof -
  have h: "scrim_upper ieee 100 < scrim_lower ieee 100"
    by (simp add: scrim_upper_100 scrim_lower_def)
  have "scrimH ieee 100 40 = to_REAL ieee (scrim_upper ieee 100)"
    using label_geometry_rounded [of 100 40] h by blast
  then show ?thesis using h by (simp add: scrim_upper_100 single_numerals)
qed

subsection \<open>The interval of the scrim height\<close>

text \<open>
  Claim C2 says that the scrim height lies between \<open>max(18, 0.05 H)\<close> and \<open>0.15 H\<close> for
  every image. For an image 100 pixels high the scrim height is 15, below the lower
  bound 18. For an image 123 pixels high and a text 40 pixels high the scrim height is
  \<open>9673114 / 2^19 = 18.450000762939453125\<close>, above the upper bound \<open>0.15 * 123 = 18.45\<close>.
\<close>

theorem scrimH_outside_interval:
  "scrimH ieee 100 40 = 15
   \<and> \<not> max 18 (0.05 * UINT_to_double 100) \<le> scrimH ieee 100 40
   \<and> scrimH ieee 123 40 = 9673114 / 2 ^ 19
   \<and> \<not> scrimH ieee 123 40 \<le> 0.15 * UINT_to_double 123"
  by (simp add: scrimH_100 scrimH_123 UINT_to_double_numerals)

text \<open>
  Claim C2, amended. For an image at least 120 pixels high the scrim height lies between
  the lower and the upper bound as the program computes them and rounds them to \<^verbatim>\<open>REAL\<close>,
  and so between \<open>(1 - 2^-23) max(18, 0.05 H)\<close> and \<open>(1 + 2^-23) 0.15 H\<close>. For an image less
  than 120 pixels high it is the computed upper bound rounded to \<^verbatim>\<open>REAL\<close>, which is within
  the fraction \<open>2^-23\<close> of \<open>0.15 H\<close> and below 18.
\<close>

theorem scrimH_bounds:
  "(120 \<le> unat h
      \<longrightarrow> (1 - pow2 (- 23)) * max 18 (0.05 * UINT_to_double h) \<le> scrimH ieee h bh
          \<and> scrimH ieee h bh \<le> (1 + pow2 (- 23)) * (0.15 * UINT_to_double h)
          \<and> to_REAL ieee (scrim_lower ieee h) \<le> scrimH ieee h bh
          \<and> scrimH ieee h bh \<le> to_REAL ieee (scrim_upper ieee h))
   \<and> (unat h < 120
      \<longrightarrow> scrimH ieee h bh = to_REAL ieee (scrim_upper ieee h)
          \<and> (1 - pow2 (- 23)) * (0.15 * UINT_to_double h) \<le> scrimH ieee h bh
          \<and> scrimH ieee h bh \<le> (1 + pow2 (- 23)) * (0.15 * UINT_to_double h)
          \<and> scrimH ieee h bh < 18)"
proof (rule conjI; rule impI)
  assume "120 \<le> unat h"
  then have le: "scrim_lower ieee h \<le> scrim_upper ieee h" by (simp add: ieee_bounds_ordered_iff)
  note b = scrimH_between [OF ieee_mono(1) ieee_idem le, of bh]
  have lo: "(1 - pow2 (- 23)) * max 18 (0.05 * UINT_to_double h) \<le> round_to 24 (scrim_lower ieee h)"
    by (rule single_error_nonneg(1) [OF _ scrim_lower_error]) simp
  have hi: "round_to 24 (scrim_upper ieee h) \<le> (1 + pow2 (- 23)) * (0.15 * UINT_to_double h)"
    by (rule single_error_nonneg(2) [OF _ scrim_upper_error]) (simp add: UINT_to_double_nonneg)
  show "(1 - pow2 (- 23)) * max 18 (0.05 * UINT_to_double h) \<le> scrimH ieee h bh
          \<and> scrimH ieee h bh \<le> (1 + pow2 (- 23)) * (0.15 * UINT_to_double h)
          \<and> to_REAL ieee (scrim_lower ieee h) \<le> scrimH ieee h bh
          \<and> scrimH ieee h bh \<le> to_REAL ieee (scrim_upper ieee h)"
    using b lo hi by simp
next
  assume a: "unat h < 120"
  then have lt: "scrim_upper ieee h < scrim_lower ieee h"
    using ieee_bounds_ordered_iff [of h] by simp
  then have e: "scrimH ieee h bh = to_REAL ieee (scrim_upper ieee h)"
    using ieee_mono by (intro upper_clamp_wins) (simp_all add: single_numerals)
  have lo: "(1 - pow2 (- 23)) * (0.15 * UINT_to_double h) \<le> round_to 24 (scrim_upper ieee h)"
    by (rule single_error_nonneg(1) [OF _ scrim_upper_error]) (simp add: UINT_to_double_nonneg)
  have hi: "round_to 24 (scrim_upper ieee h) \<le> (1 + pow2 (- 23)) * (0.15 * UINT_to_double h)"
    by (rule single_error_nonneg(2) [OF _ scrim_upper_error]) (simp add: UINT_to_double_nonneg)
  have "unat h \<le> 119" using a by simp
  then have "UINT_to_double h \<le> real 119"
    unfolding UINT_to_double_def by (simp only: of_nat_le_iff)
  then have "(1 + pow2 (- 23)) * (0.15 * UINT_to_double h) \<le> (1 + pow2 (- 23)) * (0.15 * 119)"
    by (intro mult_left_mono) simp_all
  also have "\<dots> < 18" by (simp add: pow2_def)
  finally have "round_to 24 (scrim_upper ieee h) < 18" using hi by linarith
  then show "scrimH ieee h bh = to_REAL ieee (scrim_upper ieee h)
          \<and> (1 - pow2 (- 23)) * (0.15 * UINT_to_double h) \<le> scrimH ieee h bh
          \<and> scrimH ieee h bh \<le> (1 + pow2 (- 23)) * (0.15 * UINT_to_double h)
          \<and> scrimH ieee h bh < 18"
    using e lo hi by simp
qed

theorem scrimH_bounds_witness:
  "(1 - pow2 (- 23)) * max 18 (0.05 * UINT_to_double 600) \<le> scrimH ieee 600 40
   \<and> scrimH ieee 600 40 \<le> (1 + pow2 (- 23)) * (0.15 * UINT_to_double 600)
   \<and> scrimH ieee 100 40 = to_REAL ieee (scrim_upper ieee 100)
   \<and> scrimH ieee 100 40 < 18"
proof -
  have h1: "120 \<le> unat (600 :: 32 word)" by simp
  have h2: "unat (100 :: 32 word) < 120" by simp
  show ?thesis
    using scrimH_bounds [of 600 40] scrimH_bounds [of 100 40] h1 h2 by blast
qed

end
